theory Spec2Isabelle
  imports Complex_Main
begin

section \<open>The undo/redo history store (\<open>useHistory\<close>)\<close>

text \<open>
  The hook keeps two pieces of React state: the array \<open>history\<close> and the number
  \<open>currentIndex\<close>. Every callback closes over the values of the last render and
  schedules the next ones, so one call is a function from the rendered store to the
  store of the next render. The same shape \<open>{history, currentIndex}\<close> is what the
  editors hand to the autosave hook and what they write to \<open>localStorage\<close>.

  The index is a JavaScript number, and the editors read it back from stored records
  that nothing validates, so it is a real number here (the finite numbers; \<open>NaN\<close> fails
  every comparison of the source and never gets into the store).
\<close>

record 'a hist =
  history :: "'a list"
  currentIndex :: real

text \<open>
  The option \<open>limit\<close> is a number whose default is \<open>Infinity\<close>. It is written in the
  source of each editor, as the integers 10 and 5; the model keeps integers (negative
  ones included) and \<open>Infinity\<close>.
\<close>

datatype limit = Finite int | Infinity

text \<open>The test \<open>newHistory.length > limit\<close>.\<close>

fun exceeds :: "nat \<Rightarrow> limit \<Rightarrow> bool" where
  "exceeds n (Finite l) = (int n > l)"
| "exceeds n Infinity = False"

text \<open>\<open>const { limit = Infinity } = options || {}\<close>: both the options object and its
  field may be absent.\<close>

definition limit_of :: "int option option \<Rightarrow> limit" where
  "limit_of options =
     (case options of
        None \<Rightarrow> Infinity
      | Some None \<Rightarrow> Infinity
      | Some (Some l) \<Rightarrow> Finite l)"

text \<open>\<open>useState([initialState])\<close> and \<open>useState(0)\<close>.\<close>

definition useHistory :: "'a \<Rightarrow> 'a hist" where
  "useHistory initialState = \<lparr>history = [initialState], currentIndex = 0\<rparr>"

text \<open>Whether a number is an integer.\<close>

definition is_integer :: "real \<Rightarrow> bool" where
  "is_integer x = (of_int \<lfloor>x\<rfloor> = x)"

text \<open>\<open>xs[i]\<close>: only an integer inside the array names an element; any other number
  yields \<open>undefined\<close>, here \<open>None\<close>.\<close>

definition index :: "'a list \<Rightarrow> real \<Rightarrow> 'a option" where
  "index xs i =
     (if is_integer i \<and> 0 \<le> i \<and> i < real (length xs) then Some (xs ! nat \<lfloor>i\<rfloor>) else None)"

text \<open>\<open>const state = history[currentIndex]\<close>.\<close>

definition state :: "'a hist \<Rightarrow> 'a option" where
  "state h = index (history h) (currentIndex h)"

text \<open>The integer a number is cut to when it is used as a position (the fraction is
  dropped, towards zero).\<close>

definition trunc :: "real \<Rightarrow> int" where
  "trunc x = (if x < 0 then \<lceil>x\<rceil> else \<lfloor>x\<rfloor>)"

text \<open>\<open>xs.slice(0, end)\<close>: \<open>end\<close> is cut to an integer, a negative one counts from the
  end of the array, and the result is clipped to the array.\<close>

definition slice0 :: "'a list \<Rightarrow> real \<Rightarrow> 'a list" where
  "slice0 xs end =
     (let n = int (length xs);
          rel = trunc end;
          k = (if rel < 0 then max (n + rel) 0 else min rel n)
      in take (nat k) xs)"

text \<open>\<open>xs.shift()\<close> removes the first element; on an empty array it does nothing.\<close>

fun shift :: "'a list \<Rightarrow> 'a list" where
  "shift [] = []"
| "shift (x # xs) = xs"

text \<open>
  \<open>while (newHistory.length > limit) newHistory.shift()\<close>. With a negative limit the
  test stays true on the empty array and the loop never ends, so the loop is a partial
  function: \<open>None\<close> is "does not return".
\<close>

partial_function (option) shift_while :: "limit \<Rightarrow> 'a list \<Rightarrow> 'a list option" where
  "shift_while L newHistory =
     (if exceeds (length newHistory) L then shift_while L (shift newHistory)
      else Some newHistory)"

text \<open>The argument of \<open>setState\<close> is a value or an updater applied to the rendered
  state (which is \<open>undefined\<close> when the index names no element).\<close>

datatype 'a new_state = Val 'a | Fn "'a option \<Rightarrow> 'a"

fun resolve :: "'a new_state \<Rightarrow> 'a option \<Rightarrow> 'a" where
  "resolve (Val v) st = v"
| "resolve (Fn f) st = f st"

text \<open>
  \<open>setState\<close> (the commit). \<open>stringify\<close> stands for \<open>JSON.stringify\<close> on the state type;
  \<open>JSON.stringify(undefined)\<close> is \<open>undefined\<close>, which no string equals, hence the
  comparison under \<open>map_option\<close>. The result \<open>None\<close> means that the eviction loop does
  not return.
\<close>

definition setState ::
  "('a \<Rightarrow> 'j) \<Rightarrow> limit \<Rightarrow> 'a new_state \<Rightarrow> 'a hist \<Rightarrow> 'a hist option" where
  "setState stringify L newState h =
     (let resolvedState = resolve newState (state h) in
      if Some (stringify resolvedState) = map_option stringify (state h) then Some h
      else
        (case shift_while L (slice0 (history h) (currentIndex h + 1) @ [resolvedState]) of
           None \<Rightarrow> None
         | Some newHistory \<Rightarrow>
             Some \<lparr>history = newHistory, currentIndex = real (length newHistory) - 1\<rparr>))"

definition undo :: "'a hist \<Rightarrow> 'a hist" where
  "undo h = (if currentIndex h > 0 then h\<lparr>currentIndex := currentIndex h - 1\<rparr> else h)"

definition redo :: "'a hist \<Rightarrow> 'a hist" where
  "redo h =
     (if currentIndex h < real (length (history h)) - 1
      then h\<lparr>currentIndex := currentIndex h + 1\<rparr> else h)"

definition reset :: "'a \<Rightarrow> 'a hist \<Rightarrow> 'a hist" where
  "reset newState h = \<lparr>history = [newState], currentIndex = 0\<rparr>"

text \<open>\<open>loadHistory\<close>: the array argument may be \<open>null\<close> or \<open>undefined\<close> (\<open>None\<close>), which
  the guard \<open>newHistory && ...\<close> rejects like an empty one. The guard compares the index
  with the bounds and does not test that it is an integer.\<close>

definition loadHistory :: "'a list option \<Rightarrow> real \<Rightarrow> 'a hist \<Rightarrow> 'a hist" where
  "loadHistory newHistory newIndex h =
     (case newHistory of
        None \<Rightarrow> h
      | Some xs \<Rightarrow>
          if length xs > 0 \<and> newIndex \<ge> 0 \<and> newIndex < real (length xs)
          then \<lparr>history = xs, currentIndex = newIndex\<rparr>
          else h)"

definition canUndo :: "'a hist \<Rightarrow> bool" where
  "canUndo h = (currentIndex h > 0)"

definition canRedo :: "'a hist \<Rightarrow> bool" where
  "canRedo h = (currentIndex h < real (length (history h)) - 1)"

text \<open>The invariant as the data model words it: a non-empty sequence and
  \<open>0 \<le> cursor < length\<close>.\<close>

definition cursor_in_range :: "'a hist \<Rightarrow> bool" where
  "cursor_in_range h =
     (length (history h) \<ge> 1 \<and> 0 \<le> currentIndex h \<and>
      currentIndex h < real (length (history h)))"

text \<open>The same with a cursor that is an integer, as the data model has it, and that
  cursor as a position in the sequence.\<close>

definition hist_inv :: "'a hist \<Rightarrow> bool" where
  "hist_inv h = (cursor_in_range h \<and> is_integer (currentIndex h))"

definition cursor :: "'a hist \<Rightarrow> nat" where
  "cursor h = nat \<lfloor>currentIndex h\<rfloor>"

text \<open>The configured limits the data model allows: \<open>L \<ge> 1\<close>, or no bound.\<close>

fun limit_ok :: "limit \<Rightarrow> bool" where
  "limit_ok (Finite l) = (l \<ge> 1)"
| "limit_ok Infinity = True"

text \<open>The number of entries the eviction loop removes from a sequence of length \<open>n\<close>.\<close>

fun evicted :: "nat \<Rightarrow> limit \<Rightarrow> nat" where
  "evicted n (Finite l) = n - nat l"
| "evicted n Infinity = 0"

text \<open>Commits in a row; a commit that does not return stops the run.\<close>

fun commits :: "('a \<Rightarrow> 'j) \<Rightarrow> limit \<Rightarrow> 'a list \<Rightarrow> 'a hist \<Rightarrow> 'a hist option" where
  "commits stringify L [] h = Some h"
| "commits stringify L (s # ss) h =
     (case setState stringify L (Val s) h of
        None \<Rightarrow> None
      | Some h' \<Rightarrow> commits stringify L ss h')"

text \<open>Each state of the list differs, under \<open>stringify\<close>, from the one current when it
  is committed: the rendered state first, then its predecessor in the list.\<close>

fun distinct_run :: "('a \<Rightarrow> 'j) \<Rightarrow> 'a option \<Rightarrow> 'a list \<Rightarrow> bool" where
  "distinct_run stringify cur [] = True"
| "distinct_run stringify cur (s # ss) =
     (Some (stringify s) \<noteq> map_option stringify cur \<and> distinct_run stringify (Some s) ss)"

text \<open>The store a commit of a new state produces, in closed form.\<close>

definition committed :: "limit \<Rightarrow> 'a \<Rightarrow> 'a hist \<Rightarrow> 'a hist" where
  "committed L s h =
     (let kept = take (Suc (cursor h)) (history h) @ [s];
          newHistory = drop (evicted (length kept) L) kept
      in \<lparr>history = newHistory, currentIndex = real (length newHistory) - 1\<rparr>)"

fun undos :: "nat \<Rightarrow> 'a hist \<Rightarrow> 'a hist" where
  "undos 0 h = h"
| "undos (Suc n) h = undos n (undo h)"

text \<open>\<open>N\<close> commits followed by \<open>N\<close> undos.\<close>

definition commits_then_undos ::
  "('a \<Rightarrow> 'j) \<Rightarrow> limit \<Rightarrow> 'a list \<Rightarrow> 'a hist \<Rightarrow> 'a hist option" where
  "commits_then_undos stringify L ss h =
     (case commits stringify L ss h of
        None \<Rightarrow> None
      | Some h' \<Rightarrow> Some (undos (length ss) h'))"

section \<open>The photo editor's save and load paths (\<open>PhotoEditor.tsx\<close>, \<open>fileUtils.ts\<close>)\<close>

text \<open>A \<open>Blob\<close> is a MIME type and content bytes; a \<open>File\<close> adds a name.\<close>

record Blob =
  blob_type :: string
  blob_bytes :: string

record File =
  file_name :: string
  file_type :: string
  file_bytes :: string

text \<open>The placeholder \<open>originalFileData\<close> written in place of a \<open>File\<close>.\<close>

record file_data =
  dataUrl :: string
  name :: string

text \<open>
  The interface \<open>PhotoEditorState\<close> has the first four fields. At run time the
  serialized snapshots carry \<open>originalFileData\<close> as well, and so do the snapshots a load
  rebuilds from them (the object spread copies it), hence the fifth field.
\<close>

record PhotoEditorState =
  originalFile :: "File option"
  imageSrc :: "string option"
  editedImageSrc :: "string option"
  activeFilter :: string
  originalFileData :: "file_data option"

definition initialState :: PhotoEditorState where
  "initialState =
     \<lparr>originalFile = None, imageSrc = None, editedImageSrc = None, activeFilter = [],
      originalFileData = None\<rparr>"

text \<open>
  \<open>JSON.stringify\<close> on a snapshot, which is what \<open>setState\<close> of the history store
  compares. The model keeps the JSON value that the text denotes (each determines the
  other): an object lists its keys in the order of insertion, which is the same in
  every snapshot the editor builds or loads; a \<open>File\<close> has no enumerable property of its
  own and is written \<open>{}\<close>; \<open>null\<close> is written \<open>null\<close>; a property that is absent is left
  out.
\<close>

datatype json = JNull | JString string | JObject "(string \<times> json) list"

definition json_of_string :: "string option \<Rightarrow> json" where
  "json_of_string s = (case s of None \<Rightarrow> JNull | Some t \<Rightarrow> JString t)"

definition JSON_stringify :: "PhotoEditorState \<Rightarrow> json" where
  "JSON_stringify s =
     JObject
       ([(''originalFile'', (case originalFile s of None \<Rightarrow> JNull | Some f \<Rightarrow> JObject [])),
         (''imageSrc'', json_of_string (imageSrc s)),
         (''editedImageSrc'', json_of_string (editedImageSrc s)),
         (''activeFilter'', JString (activeFilter s))] @
        (case originalFileData s of
           None \<Rightarrow> []
         | Some d \<Rightarrow>
             [(''originalFileData'',
               JObject [(''dataUrl'', JString (dataUrl d)), (''name'', JString (name d))])]))"

text \<open>The projection in the words of the specification: the snapshot with its binary
  handle field left out.\<close>

definition serializable ::
  "PhotoEditorState \<Rightarrow> string option \<times> string option \<times> string \<times> file_data option" where
  "serializable s = (imageSrc s, editedImageSrc s, activeFilter s, originalFileData s)"

definition PHOTO_PROJECT_KEY :: string where
  "PHOTO_PROJECT_KEY = ''photoEditorProject''"

definition AUTO_SAVE_KEY :: string where
  "AUTO_SAVE_KEY = ''photoEditorAutoSave''"

text \<open>\<open>!s\<close> on a value of type \<open>string | null\<close>: \<open>null\<close> and the empty string are falsy.\<close>

definition falsy :: "string option \<Rightarrow> bool" where
  "falsy s = (s = None \<or> s = Some [])"

text \<open>What awaiting a promise gives: it rejects, or it resolves with a value.\<close>

datatype 'a promise = Rejected | Resolved 'a

text \<open>\<open>Promise.all\<close> resolves with all the values, or rejects when one promise does.\<close>

fun promise_all :: "'a promise list \<Rightarrow> 'a list promise" where
  "promise_all [] = Resolved []"
| "promise_all (p # ps) =
     (case p of
        Rejected \<Rightarrow> Rejected
      | Resolved x \<Rightarrow>
          (case promise_all ps of Rejected \<Rightarrow> Rejected | Resolved xs \<Rightarrow> Resolved (x # xs)))"

text \<open>
  The function mapped over the history in \<open>getSerializableState\<close>. The browser's
  \<open>FileReader.readAsDataURL\<close> is a parameter; \<open>None\<close> is its \<open>onerror\<close>.
\<close>

definition serialize_state ::
  "(File \<Rightarrow> string option) \<Rightarrow> PhotoEditorState \<Rightarrow> PhotoEditorState promise" where
  "serialize_state readAsDataURL hState =
     (case originalFile hState of
        None \<Rightarrow> Resolved (hState\<lparr>originalFile := None\<rparr>)
      | Some f \<Rightarrow>
          (case readAsDataURL f of
             None \<Rightarrow> Rejected
           | Some url \<Rightarrow>
               Resolved (hState\<lparr>originalFile := None,
                   originalFileData := Some \<lparr>dataUrl = url, name = file_name f\<rparr>\<rparr>)))"

text \<open>\<open>getSerializableState\<close>: the result \<open>None\<close> is the \<open>null\<close> it returns for "nothing to
  save". The guard reads the first entry of the history.\<close>

definition getSerializableState ::
  "(File \<Rightarrow> string option) \<Rightarrow> PhotoEditorState list \<Rightarrow> real \<Rightarrow>
     PhotoEditorState hist option promise" where
  "getSerializableState readAsDataURL historyToSave indexToSave =
     (case historyToSave of
        [] \<Rightarrow> Resolved None
      | first # _ \<Rightarrow>
          if falsy (imageSrc first) then Resolved None
          else
            (case promise_all (map (serialize_state readAsDataURL) historyToSave) of
               Rejected \<Rightarrow> Rejected
             | Resolved serializableHistory \<Rightarrow>
                 Resolved (Some \<lparr>history = serializableHistory, currentIndex = indexToSave\<rparr>)))"

text \<open>
  An entry of \<open>localStorage\<close> is text. The model keeps the record a text parses to
  (\<open>JSON.parse\<close> after \<open>JSON.stringify\<close> gives a serialized record back), and \<open>Garbage\<close>
  for a text on which \<open>JSON.parse\<close> throws.
\<close>

datatype item = Json "PhotoEditorState hist" | Garbage

type_synonym storage = "string \<rightharpoonup> item"

text \<open>\<open>handleAutoSave\<close>, the callback the editor gives to the autosave hook.
  \<open>localStorage.setItem\<close> throws when the text exceeds the quota (\<open>fits\<close> is false).\<close>

definition handleAutoSave ::
  "(File \<Rightarrow> string option) \<Rightarrow> (PhotoEditorState hist \<Rightarrow> bool) \<Rightarrow>
     PhotoEditorState hist \<Rightarrow> storage \<Rightarrow> unit promise \<times> storage" where
  "handleAutoSave readAsDataURL fits dataToSave localStorage =
     (case getSerializableState readAsDataURL (history dataToSave) (currentIndex dataToSave) of
        Rejected \<Rightarrow> (Rejected, localStorage)
      | Resolved None \<Rightarrow> (Resolved (), localStorage)
      | Resolved (Some serializableData) \<Rightarrow>
          if fits serializableData
          then (Resolved (), localStorage(AUTO_SAVE_KEY \<mapsto> Json serializableData))
          else (Rejected, localStorage))"

text \<open>\<open>dataUrlToFile\<close>: \<open>fetch(dataUrl)\<close> and \<open>res.blob()\<close> are the browser's (\<open>None\<close> is a
  rejection); the file takes its name from the argument and its type from the blob.\<close>

definition dataUrlToFile :: "(string \<Rightarrow> Blob option) \<Rightarrow> string \<Rightarrow> string \<Rightarrow> File promise" where
  "dataUrlToFile fetch_blob url filename =
     (case fetch_blob url of
        None \<Rightarrow> Rejected
      | Some b \<Rightarrow>
          Resolved \<lparr>file_name = filename, file_type = blob_type b, file_bytes = blob_bytes b\<rparr>)"

text \<open>The function mapped over the saved history when a project is loaded.\<close>

definition reconstruct ::
  "(string \<Rightarrow> Blob option) \<Rightarrow> PhotoEditorState \<Rightarrow> PhotoEditorState promise" where
  "reconstruct fetch_blob hState =
     (case originalFileData hState of
        None \<Rightarrow> Resolved (hState\<lparr>originalFile := None\<rparr>)
      | Some d \<Rightarrow>
          (case dataUrlToFile fetch_blob (dataUrl d) (name d) of
             Rejected \<Rightarrow> Rejected
           | Resolved f \<Rightarrow> Resolved (hState\<lparr>originalFile := Some f\<rparr>)))"

text \<open>The editor as far as loading touches it: its history store, \<open>localStorage\<close> and
  the alerts shown to the user, oldest first.\<close>

record editor =
  store :: "PhotoEditorState hist"
  localStorage :: storage
  alerts :: "string list"

text \<open>The body of the \<open>try\<close> block of \<open>handleLoadProject\<close>: parse, rebuild every snapshot,
  then hand the result to \<open>loadHistory\<close>. Any throw or rejection leaves the block.\<close>

definition load_saved ::
  "(string \<Rightarrow> Blob option) \<Rightarrow> item \<Rightarrow> PhotoEditorState hist \<Rightarrow> PhotoEditorState hist promise" where
  "load_saved fetch_blob savedDataString h =
     (case savedDataString of
        Garbage \<Rightarrow> Rejected
      | Json savedData \<Rightarrow>
          (case promise_all (map (reconstruct fetch_blob) (history savedData)) of
             Rejected \<Rightarrow> Rejected
           | Resolved reconstructedHistory \<Rightarrow>
               Resolved (loadHistory (Some reconstructedHistory) (currentIndex savedData) h)))"

definition handleLoadProject :: "(string \<Rightarrow> Blob option) \<Rightarrow> editor \<Rightarrow> editor" where
  "handleLoadProject fetch_blob ed =
     (case localStorage ed PHOTO_PROJECT_KEY of
        None \<Rightarrow> ed\<lparr>alerts := alerts ed @ [''No saved project found.'']\<rparr>
      | Some savedDataString \<Rightarrow>
          (case load_saved fetch_blob savedDataString (store ed) of
             Resolved h \<Rightarrow>
               ed\<lparr>store := h, alerts := alerts ed @ [''Project loaded successfully!'']\<rparr>
           | Rejected \<Rightarrow>
               ed\<lparr>alerts := alerts ed @
                     [''Could not load the saved project. The data may be corrupted.''],
                   localStorage := (localStorage ed)(PHOTO_PROJECT_KEY := None)\<rparr>))"

text \<open>
  A codec for evaluating the paths on concrete inputs: the data URL of a file is its
  content, and fetching a data URL gives the content back with an unnamed type. It
  never fails. \<open>any_size\<close> is a store without a quota.
\<close>

definition plain_reader :: "File \<Rightarrow> string option" where
  "plain_reader f = Some (file_bytes f)"

definition plain_fetch :: "string \<Rightarrow> Blob option" where
  "plain_fetch url = Some \<lparr>blob_type = [], blob_bytes = url\<rparr>"

definition any_size :: "PhotoEditorState hist \<Rightarrow> bool" where
  "any_size d = True"

definition photo :: PhotoEditorState where
  "photo =
     \<lparr>originalFile = Some \<lparr>file_name = ''a.png'', file_type = ''image/png'', file_bytes = ''xyz''\<rparr>,
      imageSrc = Some ''blob:1'', editedImageSrc = None, activeFilter = [],
      originalFileData = None\<rparr>"

definition empty_photo :: PhotoEditorState where
  "empty_photo =
     \<lparr>originalFile = Some \<lparr>file_name = ''e.png'', file_type = ''image/png'', file_bytes = []\<rparr>,
      imageSrc = Some ''blob:2'', editedImageSrc = None, activeFilter = ''sepia(1)'',
      originalFileData = None\<rparr>"

section \<open>The autosave hook (\<open>useAutoSave\<close>)\<close>

datatype SaveStatus = Idle | Saving | Saved | Error

text \<open>Which timer called \<open>performSave\<close>.\<close>

datatype trigger = Debounce | Interval

text \<open>
  The hook's own state (\<open>status\<close>, \<open>lastSaved\<close>, the refs, and whether the last run of
  the debounce effect returned a cleanup), how its caller builds the \<open>data\<close> argument
  (\<open>freshData\<close>: a new object in every render, as both editors do with
  \<open>{ history, currentIndex }\<close>, or the same reference as long as nothing changes), the
  part of the browser it uses (a clock in milliseconds, the pending timeouts as pairs
  of id and deadline, the next timer id, the interval timer with its period and next
  tick), and two observations: the calls of the save callback in order (time, trigger,
  data passed) and the number of calls whose promise has not settled yet. \<open>lastSaved\<close>
  holds the minute of the day, which is what the formatted time shows.
\<close>

record 'a autosave =
  status :: SaveStatus
  lastSaved :: "nat option"
  debounceTimeoutRef :: "nat option"
  dataRef :: 'a
  isMounted :: bool
  hasCleanup :: bool
  freshData :: bool
  now :: nat
  timeouts :: "(nat \<times> nat) list"
  nextId :: nat
  intervalId :: nat
  period :: nat
  nextTick :: nat
  saves :: "(nat \<times> trigger \<times> 'a) list"
  inFlight :: nat

text \<open>\<open>window.setTimeout\<close> and \<open>clearTimeout\<close>. Timer ids are positive, so that an id is
  truthy.\<close>

definition setTimeout :: "nat \<Rightarrow> 'a autosave \<Rightarrow> nat \<times> 'a autosave" where
  "setTimeout delay s =
     (nextId s,
      s\<lparr>timeouts := timeouts s @ [(nextId s, now s + delay)], nextId := nextId s + 1\<rparr>)"

definition clearTimeout :: "nat \<Rightarrow> 'a autosave \<Rightarrow> 'a autosave" where
  "clearTimeout i s = s\<lparr>timeouts := filter (\<lambda>p. fst p \<noteq> i) (timeouts s)\<rparr>"

text \<open>\<open>if (debounceTimeoutRef.current) clearTimeout(debounceTimeoutRef.current)\<close>, which
  is both the start of the debounce effect and its cleanup.\<close>

definition clear_debounce :: "'a autosave \<Rightarrow> 'a autosave" where
  "clear_debounce s =
     (case debounceTimeoutRef s of
        None \<Rightarrow> s
      | Some i \<Rightarrow> if i = 0 then s else clearTimeout i s)"

text \<open>The body of the debounce effect: nothing but the flag on the first run, a fresh
  timeout of 2500 ms on every later one.\<close>

definition debounce_effect :: "'a autosave \<Rightarrow> 'a autosave" where
  "debounce_effect s =
     (if \<not> isMounted s then s\<lparr>isMounted := True, hasCleanup := False\<rparr>
      else
        (case setTimeout 2500 (clear_debounce s) of
           (i, s') \<Rightarrow> s'\<lparr>debounceTimeoutRef := Some i, hasCleanup := True\<rparr>))"

text \<open>\<open>setInterval(performSave, interval)\<close>; a period of 0 is taken as 1 ms.\<close>

definition interval_effect :: "nat \<Rightarrow> 'a autosave \<Rightarrow> 'a autosave" where
  "interval_effect interval s =
     s\<lparr>intervalId := nextId s, nextId := nextId s + 1,
       period := max 1 interval, nextTick := now s + max 1 interval\<rparr>"

text \<open>The first render at time \<open>t0\<close>: the initial values of the state and the refs, then
  the effects in the order of the source.\<close>

definition mount :: "bool \<Rightarrow> 'a \<Rightarrow> nat \<Rightarrow> nat \<Rightarrow> 'a autosave" where
  "mount fresh data interval t0 =
     interval_effect interval
       (debounce_effect
          \<lparr>status = Idle, lastSaved = None, debounceTimeoutRef = None, dataRef = data,
           isMounted = False, hasCleanup = False, freshData = fresh, now = t0,
           timeouts = [], nextId = 1, intervalId = 0, period = 0, nextTick = 0,
           saves = [], inFlight = 0\<rparr>)"

text \<open>
  A later render. The effect without dependencies refreshes the refs every time. The
  debounce effect depends on \<open>data\<close> (\<open>performSave\<close> never changes): when React finds
  \<open>data\<close> changed, that is, another reference than in the last render, it runs the
  cleanup the last run returned, if any, then the body. The interval argument is the
  same in every render.
\<close>

definition render :: "bool \<Rightarrow> 'a \<Rightarrow> 'a autosave \<Rightarrow> 'a autosave" where
  "render changed data s =
     (let s0 = s\<lparr>dataRef := data\<rparr> in
      if changed then debounce_effect (if hasCleanup s0 then clear_debounce s0 else s0)
      else s0)"

text \<open>
  \<open>setStatus\<close> and \<open>setLastSaved\<close> are state of the component that calls the hook: when
  a value changes, React renders the component again, and the component calls the hook
  with its data, a new reference if it builds the object in the render. When the
  values stay as they were, nothing is rendered.
\<close>

definition after_update :: "'a autosave \<Rightarrow> 'a autosave \<Rightarrow> 'a autosave" where
  "after_update old s =
     (if status s = status old \<and> lastSaved s = lastSaved old then s
      else render (freshData s) (dataRef s) s)"

text \<open>
  \<open>performSave\<close> up to its \<open>await\<close>: it sets the status and calls the save callback
  with the data of the ref. It tests nothing before doing so. The rest of it runs
  when the promise of the callback settles.
\<close>

definition performSave :: "trigger \<Rightarrow> nat \<Rightarrow> 'a autosave \<Rightarrow> 'a autosave" where
  "performSave trg t s =
     s\<lparr>status := Saving, saves := saves s @ [(t, trg, dataRef s)], inFlight := inFlight s + 1\<rparr>"

definition settle :: "bool \<Rightarrow> 'a autosave \<Rightarrow> 'a autosave" where
  "settle ok s =
     (if inFlight s = 0 then s
      else after_update s
        (if ok
         then s\<lparr>status := Saved, lastSaved := Some ((now s div 60000) mod 1440),
                inFlight := inFlight s - 1\<rparr>
         else s\<lparr>status := Error, inFlight := inFlight s - 1\<rparr>))"

text \<open>
  The callbacks of the timers due at time \<open>t\<close>: the interval timer, created first,
  then the due timeouts; each calls \<open>performSave\<close>. They all run before React renders.
\<close>

definition fire_due :: "nat \<Rightarrow> 'a autosave \<Rightarrow> 'a autosave" where
  "fire_due t s =
     (let s1 = (if nextTick s \<le> t
                then (performSave Interval t s)\<lparr>nextTick := nextTick s + period s\<rparr>
                else s);
          s2 = fold (\<lambda>p. performSave Debounce t) (filter (\<lambda>p. snd p \<le> t) (timeouts s1)) s1
      in s2\<lparr>timeouts := filter (\<lambda>p. \<not> snd p \<le> t) (timeouts s1)\<rparr>)"

text \<open>One millisecond passes: the timers due then fire, and the component renders again
  if they changed its state. \<open>elapse e\<close> is \<open>e\<close> milliseconds.\<close>

definition tick :: "'a autosave \<Rightarrow> 'a autosave" where
  "tick s = after_update s (fire_due (now s + 1) (s\<lparr>now := now s + 1\<rparr>))"

definition elapse :: "nat \<Rightarrow> 'a autosave \<Rightarrow> 'a autosave" where
  "elapse e s = (tick ^^ e) s"

text \<open>What happens to the hook from outside: a render of the component for a reason
  of its own (with or without a new \<open>data\<close>), time passing, a save settling.\<close>

datatype 'a event = Render bool 'a | Elapse nat | Settle bool

fun step :: "'a autosave \<Rightarrow> 'a event \<Rightarrow> 'a autosave" where
  "step s (Render changed data) = render changed data s"
| "step s (Elapse e) = elapse e s"
| "step s (Settle ok) = settle ok s"

definition run :: "'a event list \<Rightarrow> 'a autosave \<Rightarrow> 'a autosave" where
  "run evs s = foldl step s evs"

text \<open>The calls of the save callback that the debounce timer made.\<close>

definition debounce_saves :: "'a autosave \<Rightarrow> (nat \<times> trigger \<times> 'a) list" where
  "debounce_saves s = filter (\<lambda>c. fst (snd c) = Debounce) (saves s)"

text \<open>What holds of the hook after its first render: it is mounted, timer ids are
  positive and fresh, and the only timeout that can be pending is the one the ref
  names.\<close>

definition hook_inv :: "'a autosave \<Rightarrow> bool" where
  "hook_inv s =
     (isMounted s \<and> 0 < nextId s \<and> 0 < period s \<and>
      (timeouts s = [] \<or>
       (\<exists>i dl. timeouts s = [(i, dl)] \<and> debounceTimeoutRef s = Some i \<and> 0 < i \<and> i < nextId s)))"
section \<open>Properties of the history store\<close>

lemma shift_while_Infinity: "shift_while Infinity xs = Some xs"
  by (subst shift_while.simps) simp

lemma shift_while_Finite:
  "0 \<le> l \<Longrightarrow> shift_while (Finite l) xs = Some (drop (length xs - nat l) xs)"
proof (induction "length xs - nat l" arbitrary: xs)
  case 0
  then have "\<not> exceeds (length xs) (Finite l)" by simp
  then show ?case using 0 by (subst shift_while.simps) simp
next
  case (Suc k)
  then obtain y ys where xs: "xs = y # ys" by (cases xs) auto
  have ex: "exceeds (length xs) (Finite l)" using Suc.hyps(2) Suc.prems by simp
  have k: "k = length ys - nat l" using Suc.hyps(2) xs by simp
  have "shift_while (Finite l) xs = shift_while (Finite l) ys"
    using ex xs by (subst shift_while.simps) simp
  also have "\<dots> = Some (drop (length ys - nat l) ys)"
    using Suc.hyps(1)[OF k Suc.prems] .
  also have "drop (length ys - nat l) ys = drop (length xs - nat l) xs"
    using Suc.hyps(2) xs by (simp add: Suc_diff_le)
  finally show ?case .
qed

lemma shift_while_closed:
  "limit_ok L \<Longrightarrow> shift_while L xs = Some (drop (evicted (length xs) L) xs)"
  by (cases L) (simp_all add: shift_while_Finite shift_while_Infinity)

text \<open>The loop returns only under a limit that is not negative; under a negative one it
  runs forever.\<close>

lemma shift_while_returns:
  assumes "shift_while L xs = Some ys"
  shows "L = Infinity \<or> (\<exists>l. L = Finite l \<and> 0 \<le> l)"
  using assms
proof (induction rule: shift_while.raw_induct)
  case (1 shift_while L newHistory ys)
  show ?case
  proof (cases "exceeds (length newHistory) L")
    case True
    have "Spec2Isabelle.shift_while L (shift newHistory) = Some ys"
      using 1(3) True by (subst (asm) shift_while.simps) simp
    then show ?thesis using 1(1)[of L "shift newHistory" ys] 1(2) True by simp
  next
    case False
    then show ?thesis by (cases L) auto
  qed
qed (fact assms)

lemma shift_while_negative: "l < 0 \<Longrightarrow> shift_while (Finite l) xs = None"
  using shift_while_returns[of "Finite l" xs] by (cases "shift_while (Finite l) xs") auto

lemma is_integer_of_nat: "is_integer (real n)"
  by (simp add: is_integer_def)

lemma is_integer_of_int: "is_integer (of_int k)"
  by (simp add: is_integer_def)

lemma hist_inv_cursor:
  assumes "hist_inv h"
  shows "currentIndex h = real (cursor h)" and "cursor h < length (history h)"
proof -
  have i: "of_int \<lfloor>currentIndex h\<rfloor> = currentIndex h" and p: "0 \<le> currentIndex h"
    and u: "currentIndex h < real (length (history h))"
    using assms by (simp_all add: hist_inv_def cursor_in_range_def is_integer_def)
  have "0 \<le> \<lfloor>currentIndex h\<rfloor>" using p by simp
  then have "real (cursor h) = of_int \<lfloor>currentIndex h\<rfloor>" by (simp add: cursor_def)
  then show c: "currentIndex h = real (cursor h)" using i by simp
  show "cursor h < length (history h)" using u unfolding c by simp
qed

lemma hist_inv_intro:
  "k < length xs \<Longrightarrow> hist_inv \<lparr>history = xs, currentIndex = real k\<rparr>"
  by (simp add: hist_inv_def cursor_in_range_def is_integer_def)

lemma cursor_of_nat [simp]: "cursor \<lparr>history = xs, currentIndex = real k\<rparr> = k"
  by (simp add: cursor_def)

lemma index_inv: "hist_inv h \<Longrightarrow> state h = Some (history h ! cursor h)"
proof -
  assume inv: "hist_inv h"
  note c = hist_inv_cursor[OF inv]
  have "nat \<lfloor>currentIndex h\<rfloor> = cursor h" by (simp add: cursor_def)
  moreover have "is_integer (currentIndex h)" "0 \<le> currentIndex h"
    "currentIndex h < real (length (history h))"
    using inv by (simp_all add: hist_inv_def cursor_in_range_def)
  ultimately show ?thesis by (simp add: state_def index_def)
qed

lemma slice0_inv:
  assumes "hist_inv h"
  shows "slice0 (history h) (currentIndex h + 1) = take (Suc (cursor h)) (history h)"
proof -
  note c = hist_inv_cursor[OF assms]
  have t: "trunc (real (cursor h) + 1) = int (cursor h) + 1"
  proof -
    have "real (cursor h) + 1 = of_int (int (cursor h) + 1)" by simp
    then have "\<lfloor>real (cursor h) + 1\<rfloor> = int (cursor h) + 1" by (simp only: floor_of_int)
    then show ?thesis by (simp add: trunc_def)
  qed
  have "nat (min (int (cursor h) + 1) (int (length (history h)))) = Suc (cursor h)"
    using c(2) by (simp add: min_def)
  moreover have "\<not> int (cursor h) + 1 < 0" by simp
  ultimately show ?thesis
    unfolding slice0_def Let_def c(1) t by (simp only: if_False)
qed

lemma length_take_inv:
  "hist_inv h \<Longrightarrow> length (take (Suc (cursor h)) (history h)) = Suc (cursor h)"
  using hist_inv_cursor(2)[of h] by simp

lemma setState_closed:
  assumes "hist_inv h" and "limit_ok L"
  shows "setState stringify L newState h =
           (if Some (stringify (resolve newState (state h))) = map_option stringify (state h)
            then Some h else Some (committed L (resolve newState (state h)) h))"
proof -
  have "shift_while L (slice0 (history h) (currentIndex h + 1) @ [s]) =
          Some (history (committed L s h))" for s
    using assms by (simp only: slice0_inv shift_while_closed committed_def Let_def hist.simps)
  moreover have "currentIndex (committed L s h) = real (length (history (committed L s h))) - 1" for s
    by (simp only: committed_def Let_def hist.simps)
  ultimately show ?thesis
    by (simp add: setState_def Let_def)
qed

lemma evicted_less: "limit_ok L \<Longrightarrow> 0 < n \<Longrightarrow> evicted n L < n"
  by (cases L) auto

lemma evicted_zero: "\<not> exceeds n L \<Longrightarrow> evicted n L = 0"
proof (cases L)
  case (Finite l)
  assume "\<not> exceeds n L"
  then have "int n \<le> l" using Finite by simp
  then have "n \<le> nat l" by linarith
  then show ?thesis using Finite by simp
qed simp

lemma exceeds_mono: "\<not> exceeds m L \<Longrightarrow> n \<le> m \<Longrightarrow> \<not> exceeds n L"
  by (cases L) auto

lemma length_kept:
  assumes "hist_inv h"
  shows "length (take (Suc (cursor h)) (history h) @ [s]) = cursor h + 2"
  using length_take_inv[OF assms] by simp

lemma committed_history:
  assumes "hist_inv h"
  shows "history (committed L s h) =
           drop (evicted (cursor h + 2) L) (take (cursor h + 1) (history h) @ [s])"
proof -
  have "history (committed L s h) =
          drop (evicted (length (take (Suc (cursor h)) (history h) @ [s])) L)
            (take (Suc (cursor h)) (history h) @ [s])"
    by (simp only: committed_def Let_def hist.simps)
  also have "\<dots> = drop (evicted (cursor h + 2) L) (take (Suc (cursor h)) (history h) @ [s])"
    by (simp only: length_kept[OF assms])
  finally show ?thesis by (simp only: Suc_eq_plus1)
qed

lemma committed_length:
  assumes "hist_inv h"
  shows "length (history (committed L s h)) = cursor h + 2 - evicted (cursor h + 2) L"
proof -
  have "length (history (committed L s h)) =
     length (take (cursor h + 1) (history h) @ [s]) - evicted (cursor h + 2) L"
    by (simp only: committed_history[OF assms] length_drop)
  also have "take (cursor h + 1) (history h) = take (Suc (cursor h)) (history h)"
    by simp
  finally show ?thesis by (simp only: length_kept[OF assms])
qed

lemma committed_index:
  "currentIndex (committed L s h) = real (length (history (committed L s h))) - 1"
  by (simp only: committed_def Let_def hist.simps)

text \<open>After a commit the cursor is on the last entry, which is the new state.\<close>

lemma committed_at_end:
  assumes "hist_inv h" and "limit_ok L"
  shows "hist_inv (committed L s h)"
    and "cursor (committed L s h) = length (history (committed L s h)) - 1"
    and "length (history (committed L s h)) \<ge> 1"
    and "state (committed L s h) = Some s"
proof -
  let ?c = "committed L s h"
  have e: "evicted (cursor h + 2) L < cursor h + 2"
    using assms(2) by (intro evicted_less) simp_all
  then show len: "length (history ?c) \<ge> 1"
    unfolding committed_length[OF assms(1)] by simp
  then obtain m where m: "length (history ?c) = Suc m" by (cases "length (history ?c)") auto
  have ci: "currentIndex ?c = real m" unfolding committed_index m by simp
  have eq: "?c = \<lparr>history = history ?c, currentIndex = real m\<rparr>"
    using ci by (cases ?c) simp
  have inv: "hist_inv \<lparr>history = history ?c, currentIndex = real m\<rparr>"
    by (rule hist_inv_intro) (simp add: m)
  show "hist_inv ?c" using inv eq by simp
  have cm: "cursor ?c = m" unfolding cursor_def ci by simp
  then show "cursor ?c = length (history ?c) - 1" using m by simp
  have "history ?c ! m = last (history ?c)"
    using m by (metis diff_Suc_1 last_conv_nth length_0_conv nat.distinct(1))
  also have "\<dots> = last (take (cursor h + 1) (history h) @ [s])"
    unfolding committed_history[OF assms(1)]
    by (rule last_drop) (use e length_kept[OF assms(1), of s] in simp)
  also have "\<dots> = s" by simp
  finally show "state ?c = Some s"
    using index_inv[OF \<open>hist_inv ?c\<close>] cm by simp
qed

lemma hist_eta: "\<lparr>history = history h, currentIndex = currentIndex h\<rparr> = (h :: 'a hist)"
  by (cases h) simp

lemma committed_no_evict:
  assumes "hist_inv h" and "\<not> exceeds (cursor h + 2) L"
  shows "committed L s h =
           \<lparr>history = take (cursor h + 1) (history h) @ [s],
            currentIndex = currentIndex h + 1\<rparr>"
proof -
  have e: "evicted (cursor h + 2) L = 0"
    using assms(2) by (rule evicted_zero)
  have hi: "history (committed L s h) = take (cursor h + 1) (history h) @ [s]"
    unfolding committed_history[OF assms(1)] e by simp
  have ci: "currentIndex (committed L s h) = currentIndex h + 1"
    unfolding committed_index committed_length[OF assms(1)] e hist_inv_cursor(1)[OF assms(1)]
    by simp
  show ?thesis using hi ci by (cases "committed L s h") simp
qed

lemma undo_fields:
  "history (undo h) = history h"
  "currentIndex (undo h) = (if currentIndex h > 0 then currentIndex h - 1 else currentIndex h)"
  by (simp_all add: undo_def)

lemma redo_fields:
  "history (redo h) = history h"
  "currentIndex (redo h) =
     (if currentIndex h < real (length (history h)) - 1 then currentIndex h + 1
      else currentIndex h)"
  by (simp_all add: redo_def)

lemma undos_nat:
  "undos n \<lparr>history = xs, currentIndex = real k\<rparr> = \<lparr>history = xs, currentIndex = real (k - n)\<rparr>"
proof (induction n arbitrary: k)
  case 0
  then show ?case by simp
next
  case (Suc n)
  show ?case
  proof (cases k)
    case 0
    then show ?thesis using Suc.IH[of 0] by (simp add: undo_def)
  next
    case (Suc j)
    have "undo \<lparr>history = xs, currentIndex = real k\<rparr> = \<lparr>history = xs, currentIndex = real j\<rparr>"
      using Suc by (simp add: undo_def)
    then show ?thesis using Suc.IH[of j] Suc by simp
  qed
qed

lemma evicted_more:
  assumes "limit_ok L"
  shows "evicted (n - evicted n L + k) L + evicted n L = evicted (n + k) L"
proof (cases L)
  case (Finite l)
  then have "1 \<le> l" using assms by simp
  then obtain m where m: "l = int m" "1 \<le> m" by (metis nat_0_le nat_one_le_power of_nat_1 of_nat_le_iff order_trans zero_le_one)
  show ?thesis using Finite m by (cases "n \<le> m") simp_all
next
  case Infinity
  then show ?thesis by simp
qed

lemma drop_drop_append:
  assumes "e1 \<le> length A" and "e2 + e1 = e"
  shows "drop e2 (drop e1 A @ B) = drop e (A @ B)"
proof -
  have "drop e1 (A @ B) = drop e1 A @ B" using assms(1) by simp
  then have "drop e2 (drop e1 A @ B) = drop e2 (drop e1 (A @ B))" by simp
  also have "\<dots> = drop e (A @ B)" using assms(2) by (simp only: drop_drop)
  finally show ?thesis .
qed

lemma not_exceeds_after_eviction: "limit_ok L \<Longrightarrow> \<not> exceeds (n - evicted n L) L"
  by (cases L) auto

text \<open>A run of commits from a store whose cursor is on the last entry and whose
  length is within the limit.\<close>

lemma commits_at_end:
  assumes "limit_ok L"
  shows "hist_inv h \<Longrightarrow> cursor h = length (history h) - 1 \<Longrightarrow>
         \<not> exceeds (length (history h)) L \<Longrightarrow>
         distinct_run stringify (state h) ss \<Longrightarrow>
         commits stringify L ss h =
           Some \<lparr>history = drop (evicted (length (history h) + length ss) L) (history h @ ss),
                 currentIndex =
                   real (length (history h) + length ss -
                         evicted (length (history h) + length ss) L) - 1\<rparr>"
proof (induction ss arbitrary: h)
  case Nil
  have e: "evicted (length (history h)) L = 0" using Nil.prems(3) by (rule evicted_zero)
  have "1 \<le> length (history h)" using hist_inv_cursor(2)[OF Nil.prems(1)] by simp
  then have "currentIndex h = real (length (history h)) - 1"
    using hist_inv_cursor(1)[OF Nil.prems(1)] Nil.prems(2) by (simp add: of_nat_diff)
  then show ?case using e by (simp add: hist_eta)
next
  case (Cons s ss)
  let ?n = "length (history h)"
  let ?c = "committed L s h"
  have n1: "1 \<le> ?n" using hist_inv_cursor(2)[OF Cons.prems(1)] by simp
  have cn: "cursor h + 2 = ?n + 1" "cursor h + 1 = ?n" using Cons.prems(2) n1 by simp_all
  have hc: "history ?c = drop (evicted (?n + 1) L) (history h @ [s])"
    using committed_history[OF Cons.prems(1), of L s] unfolding cn by simp
  have lc: "length (history ?c) = ?n + 1 - evicted (?n + 1) L"
    using committed_length[OF Cons.prems(1), of L s] unfolding cn .
  have d: "Some (stringify s) \<noteq> map_option stringify (state h)"
    using Cons.prems(4) by simp
  have step: "setState stringify L (Val s) h = Some ?c"
    using d by (simp add: setState_closed[OF Cons.prems(1) assms])
  note ce = committed_at_end[OF Cons.prems(1) assms, of s]
  have ex: "\<not> exceeds (length (history ?c)) L"
    unfolding lc by (rule not_exceeds_after_eviction[OF assms])
  have dr: "distinct_run stringify (state ?c) ss"
    using Cons.prems(4) unfolding ce(4) by simp
  have ih: "commits stringify L ss ?c =
      Some \<lparr>history = drop (evicted (length (history ?c) + length ss) L) (history ?c @ ss),
            currentIndex = real (length (history ?c) + length ss -
                         evicted (length (history ?c) + length ss) L) - 1\<rparr>"
    by (rule Cons.IH[OF ce(1) ce(2) ex dr])
  have le: "evicted (?n + 1) L \<le> length (history h @ [s])"
    using evicted_less[OF assms, of "?n + 1"] by simp
  have ev: "evicted (length (history ?c) + length ss) L + evicted (?n + 1) L =
            evicted (?n + 1 + length ss) L"
    unfolding lc by (rule evicted_more[OF assms])
  have "drop (evicted (length (history ?c) + length ss) L) (history ?c @ ss) =
        drop (evicted (length (history ?c) + length ss) L)
          (drop (evicted (?n + 1) L) (history h @ [s]) @ ss)"
    by (simp only: hc)
  also have "\<dots> = drop (evicted (?n + 1 + length ss) L) ((history h @ [s]) @ ss)"
    by (rule drop_drop_append[OF le ev])
  also have "(history h @ [s]) @ ss = history h @ s # ss" by simp
  also have "?n + 1 + length ss = ?n + length (s # ss)" by simp
  finally have h': "drop (evicted (length (history ?c) + length ss) L) (history ?c @ ss) =
        drop (evicted (?n + length (s # ss)) L) (history h @ s # ss)" .
  have le': "evicted (?n + 1) L \<le> ?n + 1" using le by simp
  have "length (history ?c) + length ss - evicted (length (history ?c) + length ss) L =
        ?n + 1 + length ss - evicted (?n + 1 + length ss) L"
    using ev le' unfolding lc by linarith
  then have l': "length (history ?c) + length ss - evicted (length (history ?c) + length ss) L =
        ?n + length (s # ss) - evicted (?n + length (s # ss)) L"
    by simp
  show ?case
    using step ih unfolding h' l' by simp
qed

text \<open>A run of commits from any cursor: the entries up to the cursor, then the new
  states, less what the limit evicts from the front.\<close>

lemma commits_closed:
  assumes "hist_inv h" and "limit_ok L" and "distinct_run stringify (state h) ss"
    and "ss \<noteq> []"
  shows "commits stringify L ss h =
           Some \<lparr>history = drop (evicted (cursor h + 1 + length ss) L)
                             (take (cursor h + 1) (history h) @ ss),
                 currentIndex =
                   real (cursor h + 1 + length ss - evicted (cursor h + 1 + length ss) L) - 1\<rparr>"
proof -
  obtain s ss' where ss: "ss = s # ss'" using assms(4) by (cases ss) auto
  let ?k = "cursor h + 2"
  let ?c = "committed L s h"
  have hc: "history ?c = drop (evicted ?k L) (take (cursor h + 1) (history h) @ [s])"
    by (rule committed_history[OF assms(1)])
  have lc: "length (history ?c) = ?k - evicted ?k L"
    by (rule committed_length[OF assms(1)])
  have d: "Some (stringify s) \<noteq> map_option stringify (state h)"
    using assms(3) ss by simp
  have step: "setState stringify L (Val s) h = Some ?c"
    using d by (simp add: setState_closed[OF assms(1,2)])
  note ce = committed_at_end[OF assms(1,2), of s]
  have ex: "\<not> exceeds (length (history ?c)) L"
    unfolding lc by (rule not_exceeds_after_eviction[OF assms(2)])
  have dr: "distinct_run stringify (state ?c) ss'"
    using assms(3) unfolding ce(4) ss by simp
  note run = commits_at_end[OF assms(2) ce(1) ce(2) ex dr]
  have le: "evicted ?k L \<le> length (take (cursor h + 1) (history h) @ [s])"
    using evicted_less[OF assms(2), of ?k] length_kept[OF assms(1), of s] by simp
  have ev: "evicted (length (history ?c) + length ss') L + evicted ?k L =
            evicted (?k + length ss') L"
    unfolding lc by (rule evicted_more[OF assms(2)])
  have k: "?k + length ss' = cursor h + 1 + length ss" by (simp add: ss)
  have "drop (evicted (length (history ?c) + length ss') L) (history ?c @ ss') =
        drop (evicted (length (history ?c) + length ss') L)
          (drop (evicted ?k L) (take (cursor h + 1) (history h) @ [s]) @ ss')"
    by (simp only: hc)
  also have "\<dots> =
        drop (evicted (?k + length ss') L) ((take (cursor h + 1) (history h) @ [s]) @ ss')"
    by (rule drop_drop_append[OF le ev])
  also have "(take (cursor h + 1) (history h) @ [s]) @ ss' = take (cursor h + 1) (history h) @ ss"
    by (simp add: ss)
  finally have h': "drop (evicted (length (history ?c) + length ss') L) (history ?c @ ss') =
        drop (evicted (cursor h + 1 + length ss) L) (take (cursor h + 1) (history h) @ ss)"
    unfolding k .
  have "evicted ?k L \<le> ?k" using evicted_less[OF assms(2), of ?k] by simp
  then have l': "length (history ?c) + length ss' - evicted (length (history ?c) + length ss') L =
        cursor h + 1 + length ss - evicted (cursor h + 1 + length ss) L"
    using ev unfolding lc k[symmetric] by linarith
  show ?thesis
    using step run unfolding h' l' by (simp add: ss)
qed

text \<open>The commit in closed form, for any state type and any comparison.\<close>

lemma setState_commit_any:
  assumes "hist_inv h" and "limit_ok L"
  shows "(Some (stringify next) \<noteq> map_option stringify (state h) \<longrightarrow>
            (\<exists>h'. setState stringify L (Val next) h = Some h' \<and>
               history h' =
                 drop (evicted (cursor h + 2) L) (take (cursor h + 1) (history h) @ [next]) \<and>
               currentIndex h' = real (length (history h')) - 1 \<and>
               currentIndex h' = max 0 (currentIndex h + 1 - real (evicted (cursor h + 2) L)) \<and>
               (\<forall>l. L = Finite l \<and> int (cursor h + 2) > l \<longrightarrow> int (length (history h')) = l) \<and>
               (\<not> exceeds (cursor h + 2) L \<longrightarrow> length (history h') = cursor h + 2)))
       \<and> (Some (stringify next) = map_option stringify (state h) \<longrightarrow>
            setState stringify L (Val next) h = Some h)"
proof -
  let ?h' = "committed L next h"
  let ?e = "evicted (cursor h + 2) L"
  note c = hist_inv_cursor[OF assms(1)]
  have len: "length (history ?h') = cursor h + 2 - ?e"
    by (rule committed_length[OF assms(1)])
  have e_lt: "?e < cursor h + 2"
    using assms(2) by (intro evicted_less) simp_all
  have idx: "currentIndex ?h' = max 0 (currentIndex h + 1 - real ?e)"
    unfolding committed_index len c(1) using e_lt by (simp add: of_nat_diff)
  have full: "\<forall>l. L = Finite l \<and> int (cursor h + 2) > l \<longrightarrow>
                int (length (history ?h')) = l"
  proof (intro allI impI)
    fix l assume l: "L = Finite l \<and> int (cursor h + 2) > l"
    then have "1 \<le> l" using assms(2) by simp
    then show "int (length (history ?h')) = l"
      using l unfolding len by simp linarith
  qed
  have none: "\<not> exceeds (cursor h + 2) L \<longrightarrow> length (history ?h') = cursor h + 2"
  proof
    assume "\<not> exceeds (cursor h + 2) L"
    then have "?e = 0" by (rule evicted_zero)
    then show "length (history ?h') = cursor h + 2"
      unfolding len by simp
  qed
  have differ: "Some (stringify next) \<noteq> map_option stringify (state h) \<Longrightarrow>
     setState stringify L (Val next) h = Some ?h'"
    by (simp add: setState_closed[OF assms])
  have same: "Some (stringify next) = map_option stringify (state h) \<Longrightarrow>
     setState stringify L (Val next) h = Some h"
    by (simp add: setState_closed[OF assms])
  show ?thesis
    using committed_history[OF assms(1), of L "next"] committed_index[of L "next" h]
      idx full none differ same
    by blast
qed
section \<open>The claims about the history store\<close>

text \<open>
  C2. As the claim words the invariant (a non-empty sequence and
  \<open>0 \<le> cursor < length\<close>) it is not kept: the guard of \<open>loadHistory\<close> admits an index
  that is not an integer, and \<open>undo\<close> then takes the cursor below 0. With the cursor an
  integer, as the data model has it, the invariant is kept: for a limit \<open>L \<ge> 1\<close> (or none), every operation applied to a store with a
  non-empty sequence and an integer cursor inside it returns such a store again: the
  commit (which then always returns), undo, redo, reset, and \<open>loadHistory\<close> with any
  sequence and an integer index; with any index, \<open>loadHistory\<close> returns a store with
  \<open>0 \<le> cursor < length\<close>. The initial store satisfies the invariant too.
\<close>

theorem operations_preserve_invariant:
  assumes "hist_inv h" and "limit_ok L"
  shows "(\<exists>h'. setState stringify L newState h = Some h' \<and> hist_inv h') \<and>
         hist_inv (undo h) \<and> hist_inv (redo h) \<and> hist_inv (reset s h) \<and>
         (is_integer newIndex \<longrightarrow> hist_inv (loadHistory newHistory newIndex h)) \<and>
         cursor_in_range (loadHistory newHistory newIndex h) \<and> hist_inv (useHistory s)"
proof -
  note c = hist_inv_cursor[OF assms(1)]
  have eq: "h = \<lparr>history = history h, currentIndex = real (cursor h)\<rparr>"
    using c(1) by (cases h) simp
  have "\<exists>h'. setState stringify L newState h = Some h' \<and> hist_inv h'"
    using committed_at_end(1)[OF assms] assms(1) by (simp add: setState_closed[OF assms])
  moreover have "hist_inv (undo h)"
  proof (cases "cursor h")
    case 0
    then show ?thesis using assms(1) c(1) by (simp add: undo_def)
  next
    case (Suc j)
    have "undo h = \<lparr>history = history h, currentIndex = real j\<rparr>"
      using Suc c(1) by (subst eq) (simp add: undo_def)
    moreover have "j < length (history h)" using Suc c(2) by simp
    ultimately show ?thesis by (simp add: hist_inv_intro)
  qed
  moreover have "hist_inv (redo h)"
  proof (cases "Suc (cursor h) < length (history h)")
    case True
    have "redo h = \<lparr>history = history h, currentIndex = real (Suc (cursor h))\<rparr>"
      using True c(1) by (subst eq) (simp add: redo_def)
    then show ?thesis using True by (simp only: hist_inv_intro)
  next
    case False
    then have "redo h = h" using c by (simp add: redo_def)
    then show ?thesis using assms(1) by simp
  qed
  moreover have "hist_inv (reset s h)"
    using hist_inv_intro[of 0 "[s]"] by (simp add: reset_def)
  moreover have "cursor_in_range (loadHistory newHistory newIndex h)"
    using assms(1) by (simp add: hist_inv_def cursor_in_range_def loadHistory_def split: option.splits)
  moreover have "is_integer newIndex \<longrightarrow> hist_inv (loadHistory newHistory newIndex h)"
    using assms(1) by (simp add: hist_inv_def cursor_in_range_def loadHistory_def split: option.splits)
  moreover have "hist_inv (useHistory s)"
    using hist_inv_intro[of 0 "[s]"] by (simp add: useHistory_def)
  ultimately show ?thesis by blast
qed

theorem operations_preserve_invariant_witness:
  "hist_inv \<lparr>history = [5, 6, 7 :: nat], currentIndex = 2\<rparr> \<and> limit_ok (Finite 3) \<and>
   setState id (Finite 3) (Val 9) \<lparr>history = [5, 6, 7 :: nat], currentIndex = 2\<rparr> =
     Some \<lparr>history = [6, 7, 9], currentIndex = 2\<rparr> \<and>
   hist_inv \<lparr>history = [6, 7, 9 :: nat], currentIndex = 2\<rparr> \<and>
   undo \<lparr>history = [5, 6, 7 :: nat], currentIndex = 2\<rparr> =
     \<lparr>history = [5, 6, 7], currentIndex = 1\<rparr> \<and>
   hist_inv \<lparr>history = [5, 6, 7 :: nat], currentIndex = 1\<rparr> \<and>
   redo \<lparr>history = [5, 6, 7 :: nat], currentIndex = 1\<rparr> =
     \<lparr>history = [5, 6, 7], currentIndex = 2\<rparr> \<and>
   reset 4 \<lparr>history = [5, 6, 7 :: nat], currentIndex = 2\<rparr> =
     \<lparr>history = [4], currentIndex = 0\<rparr> \<and>
   hist_inv \<lparr>history = [4 :: nat], currentIndex = 0\<rparr> \<and>
   loadHistory (Some [8, 9]) 1 \<lparr>history = [5, 6, 7 :: nat], currentIndex = 2\<rparr> =
     \<lparr>history = [8, 9], currentIndex = 1\<rparr> \<and>
   hist_inv \<lparr>history = [8, 9 :: nat], currentIndex = 1\<rparr>"
proof -
  let ?h = "\<lparr>history = [5, 6, 7 :: nat], currentIndex = 2\<rparr>"
  let ?g = "\<lparr>history = [5, 6, 7 :: nat], currentIndex = 1\<rparr>"
  have inv: "hist_inv ?h" using hist_inv_intro[of 2 "[5, 6, 7 :: nat]"] by simp
  have ok: "limit_ok (Finite 3)" by simp
  have i1: "is_integer 1" using is_integer_of_nat[of 1] by simp
  note t = operations_preserve_invariant[OF inv ok, of id "Val 9" 4 1 "Some [8, 9]"]
  have st: "state ?h = Some 7"
    using index_inv[OF inv] by (simp add: cursor_def)
  have cm: "setState id (Finite 3) (Val 9) ?h = Some \<lparr>history = [6, 7, 9], currentIndex = 2\<rparr>"
    by (subst setState_closed[OF inv ok]) (simp add: st committed_def cursor_def)
  have un: "undo ?h = ?g" by (simp add: undo_def)
  have re: "redo ?g = ?h" by (simp add: redo_def)
  have rs: "reset 4 ?h = \<lparr>history = [4], currentIndex = 0\<rparr>" by (simp add: reset_def)
  have lh: "loadHistory (Some [8, 9]) 1 ?h = \<lparr>history = [8, 9], currentIndex = 1\<rparr>"
    by (simp add: loadHistory_def)
  have a: "hist_inv \<lparr>history = [6, 7, 9 :: nat], currentIndex = 2\<rparr>"
    using t cm by simp
  have b: "hist_inv ?g" using t un by simp
  have c: "hist_inv \<lparr>history = [4 :: nat], currentIndex = 0\<rparr>" using t rs by simp
  have d: "hist_inv \<lparr>history = [8, 9 :: nat], currentIndex = 1\<rparr>" using t i1 lh by simp
  show ?thesis using inv ok cm a un b re rs c lh d by blast
qed

theorem undo_fractional_cursor_counterexample:
  "limit_ok (Finite 10) \<and> hist_inv (useHistory (5::nat)) \<and>
   loadHistory (Some [6, 7]) (1 / 2) (useHistory (5::nat)) =
     \<lparr>history = [6, 7], currentIndex = 1 / 2\<rparr> \<and>
   cursor_in_range \<lparr>history = [6, 7 :: nat], currentIndex = 1 / 2\<rparr> \<and>
   \<not> hist_inv \<lparr>history = [6, 7 :: nat], currentIndex = 1 / 2\<rparr> \<and>
   undo \<lparr>history = [6, 7 :: nat], currentIndex = 1 / 2\<rparr> =
     \<lparr>history = [6, 7], currentIndex = - (1 / 2)\<rparr> \<and>
   \<not> cursor_in_range \<lparr>history = [6, 7 :: nat], currentIndex = - (1 / 2)\<rparr>"
  by (simp add: loadHistory_def useHistory_def hist_inv_def cursor_in_range_def
      is_integer_def undo_def)

text \<open>
  C4. \<open>loadHistory\<close> leaves the store exactly as it was when the sequence is missing or
  empty or the index lies outside \<open>[0, len)\<close>; the model has no error outcome, the
  call just returns. With a non-empty sequence and an index inside it, the store's
  sequence and cursor become the arguments.
\<close>

theorem loadHistory_guard:
  "((newHistory = None \<or> newHistory = Some [] \<or>
      (\<exists>xs. newHistory = Some xs \<and> (newIndex < 0 \<or> newIndex \<ge> real (length xs))))
      \<longrightarrow> loadHistory newHistory newIndex h = h) \<and>
   (\<forall>xs. newHistory = Some xs \<and> xs \<noteq> [] \<and> 0 \<le> newIndex \<and> newIndex < real (length xs)
      \<longrightarrow> loadHistory newHistory newIndex h = \<lparr>history = xs, currentIndex = newIndex\<rparr>)"
  by (auto simp: loadHistory_def)

theorem loadHistory_guard_witness:
  "loadHistory (Some []) 0 (useHistory (5::nat)) = useHistory 5 \<and>
   loadHistory (Some [6, 7]) 2 (useHistory (5::nat)) = useHistory 5 \<and>
   loadHistory (Some [6, 7]) (- 1) (useHistory (5::nat)) = useHistory 5 \<and>
   loadHistory None 0 (useHistory (5::nat)) = useHistory 5 \<and>
   loadHistory (Some [6, 7]) 1 (useHistory (5::nat)) = \<lparr>history = [6, 7], currentIndex = 1\<rparr>"
  using loadHistory_guard[of "Some []" 0 "useHistory (5::nat)"]
    loadHistory_guard[of "Some [6, 7]" 2 "useHistory (5::nat)"]
    loadHistory_guard[of "Some [6, 7]" "- 1" "useHistory (5::nat)"]
    loadHistory_guard[of None 0 "useHistory (5::nat)"]
    loadHistory_guard[of "Some [6, 7]" 1 "useHistory (5::nat)"]
  by simp

lemma commits_then_undos_back:
  assumes "hist_inv h" and "limit_ok L" and "distinct_run stringify (state h) ss"
    and "\<not> exceeds (length ss + 1) L"
  shows "\<exists>h' g. commits stringify L ss h = Some h' \<and>
           commits_then_undos stringify L ss h = Some g \<and>
           history g = history h' \<and> state g = state h \<and> hist_inv g"
proof (cases "ss = []")
  case True
  have "commits stringify L ss h = Some h" using True by simp
  moreover have "commits_then_undos stringify L ss h = Some h"
    using True by (simp add: commits_then_undos_def)
  ultimately show ?thesis using assms(1) by simp
next
  case False
  let ?c = "cursor h" and ?n = "length ss"
  define e where "e = evicted (?c + 1 + ?n) L"
  define xs where "xs = drop e (take (?c + 1) (history h) @ ss)"
  define h' where "h' = \<lparr>history = xs, currentIndex = real (?c + 1 + ?n - e) - 1\<rparr>"
  have c: "commits stringify L ss h = Some h'"
    unfolding h'_def xs_def e_def by (rule commits_closed[OF assms(1,2,3) False])
  have ec: "e \<le> ?c"
  proof (cases L)
    case (Finite l)
    have "int (?n + 1) \<le> l" using assms(4) Finite by simp
    then have "?n + 1 \<le> nat l" by linarith
    then show ?thesis unfolding e_def using Finite by simp
  next
    case Infinity
    then show ?thesis by (simp add: e_def)
  qed
  have lt: "length (take (?c + 1) (history h)) = ?c + 1"
    using length_take_inv[OF assms(1)] by simp
  have lx: "length xs = ?c + 1 + ?n - e"
    unfolding xs_def by (simp only: length_drop length_append lt)
  have ci: "real (?c + 1 + ?n - e) - 1 = real (?c + ?n - e)"
    using ec by (simp add: of_nat_diff)
  have h'': "h' = \<lparr>history = xs, currentIndex = real (?c + ?n - e)\<rparr>"
    unfolding h'_def ci ..
  define g where "g = \<lparr>history = xs, currentIndex = real (?c - e)\<rparr>"
  have "undos ?n h' = \<lparr>history = xs, currentIndex = real (?c + ?n - e - ?n)\<rparr>"
    unfolding h'' by (rule undos_nat)
  also have "?c + ?n - e - ?n = ?c - e" using ec by simp
  finally have ug: "undos ?n h' = g" unfolding g_def .
  have cu: "commits_then_undos stringify L ss h = Some g"
    using c ug by (simp add: commits_then_undos_def)
  have lg: "?c - e < length xs" unfolding lx using ec by simp
  have inv: "hist_inv g" unfolding g_def using lg by (rule hist_inv_intro)
  have le_e: "e \<le> length (take (?c + 1) (history h) @ ss)"
    using ec by (simp only: length_append lt)
  have "xs ! (?c - e) = (take (?c + 1) (history h) @ ss) ! (e + (?c - e))"
    unfolding xs_def by (rule nth_drop[OF le_e])
  also have "e + (?c - e) = ?c" using ec by simp
  also have "(take (?c + 1) (history h) @ ss) ! ?c = history h ! ?c"
    using hist_inv_cursor(2)[OF assms(1)] by (simp add: nth_append)
  finally have "state g = Some (history h ! ?c)"
    using index_inv[OF inv] by (simp add: g_def)
  then have st: "state g = state h" using index_inv[OF assms(1)] by simp
  have "history g = history h'" by (simp add: g_def h'')
  then show ?thesis using c cu st inv by blast
qed

text \<open>
  C3. \<open>undo\<close> moves the cursor down by one when it is above 0 and \<open>redo\<close> moves it up by
  one when it is below the last index; otherwise each returns the store unchanged,
  and neither touches the sequence. After \<open>N\<close> commits, each of a state that differs
  from the one current at its commit, with \<open>N < L\<close> (or no limit), \<open>N\<close> undos bring the
  state back to the one held before the commits, whatever the commits evicted, and
  leave the sequence the commits built in place; a commit of a differing state made
  then keeps the entries up to the cursor only, followed by the new state.
\<close>

theorem undo_redo_commits:
  assumes "hist_inv h" and "limit_ok L" and "distinct_run stringify (state h) ss"
    and "\<not> exceeds (length ss + 1) L"
  shows "currentIndex (undo h) =
           (if currentIndex h > 0 then currentIndex h - 1 else currentIndex h) \<and>
         history (undo h) = history h \<and>
         currentIndex (redo h) =
           (if currentIndex h < real (length (history h)) - 1 then currentIndex h + 1
            else currentIndex h) \<and>
         history (redo h) = history h \<and>
         (\<exists>h' g. commits stringify L ss h = Some h' \<and>
            commits_then_undos stringify L ss h = Some g \<and>
            history g = history h' \<and> state g = state h \<and>
            (\<forall>s. Some (stringify s) \<noteq> map_option stringify (state g) \<longrightarrow>
               (\<exists>g'. setState stringify L (Val s) g = Some g' \<and>
                  history g' =
                    drop (evicted (cursor g + 2) L)
                      (take (cursor g + 1) (history g) @ [s]))))"
proof -
  obtain h' g where hg: "commits stringify L ss h = Some h'"
      "commits_then_undos stringify L ss h = Some g"
      "history g = history h'" "state g = state h" "hist_inv g"
    using commits_then_undos_back[OF assms] by blast
  have "\<exists>g'. setState stringify L (Val s) g = Some g' \<and>
          history g' =
            drop (evicted (cursor g + 2) L) (take (cursor g + 1) (history g) @ [s])"
    if "Some (stringify s) \<noteq> map_option stringify (state g)" for s
    using that committed_history[OF hg(5), of L s]
    by (simp add: setState_closed[OF hg(5) assms(2)])
  then show ?thesis
    using hg(1-4) by (simp add: undo_fields redo_fields)
qed

theorem undo_redo_commits_witness:
  "hist_inv \<lparr>history = [5, 6, 7 :: nat], currentIndex = 2\<rparr> \<and> limit_ok (Finite 3) \<and>
   distinct_run id (state \<lparr>history = [5, 6, 7 :: nat], currentIndex = 2\<rparr>) [8, 9] \<and>
   \<not> exceeds (length [8, 9 :: nat] + 1) (Finite 3) \<and>
   commits id (Finite 3) [8, 9] \<lparr>history = [5, 6, 7 :: nat], currentIndex = 2\<rparr> =
     Some \<lparr>history = [7, 8, 9], currentIndex = 2\<rparr> \<and>
   (\<exists>g. commits_then_undos id (Finite 3) [8, 9] \<lparr>history = [5, 6, 7 :: nat], currentIndex = 2\<rparr>
          = Some g \<and> state g = Some 7 \<and> history g = [7, 8, 9])"
proof -
  let ?h = "\<lparr>history = [5, 6, 7 :: nat], currentIndex = 2\<rparr>"
  have inv: "hist_inv ?h" using hist_inv_intro[of 2 "[5, 6, 7 :: nat]"] by simp
  have ok: "limit_ok (Finite 3)" by simp
  have st: "state ?h = Some 7" using index_inv[OF inv] by (simp add: cursor_def)
  have dr: "distinct_run id (state ?h) [8, 9]" by (simp add: st)
  have ne: "\<not> exceeds (length [8, 9 :: nat] + 1) (Finite 3)" by simp
  obtain h' g where hg: "commits id (Finite 3) [8, 9] ?h = Some h'"
      "commits_then_undos id (Finite 3) [8, 9] ?h = Some g"
      "history g = history h'" "state g = state ?h"
    using undo_redo_commits[OF inv ok dr ne] by blast
  have cm: "commits id (Finite 3) [8, 9] ?h = Some \<lparr>history = [7, 8, 9], currentIndex = 2\<rparr>"
    using commits_closed[OF inv ok dr] by (simp add: cursor_def)
  from hg(1)[unfolded cm] have "history h' = [7, 8, 9]" by auto
  then show ?thesis using inv ok dr ne cm hg st by simp
qed

theorem undo_after_limit_commits_counterexample:
  "hist_inv (useHistory (5::nat)) \<and> limit_ok (Finite 3) \<and>
   distinct_run id (state (useHistory (5::nat))) [6, 7, 8] \<and>
   \<not> exceeds (length [6, 7, 8 :: nat]) (Finite 3) \<and>
   Option.bind (commits_then_undos id (Finite 3) [6, 7, 8] (useHistory (5::nat))) state = Some 6 \<and>
   state (useHistory (5::nat)) = Some 5"
proof -
  let ?h = "useHistory (5::nat)"
  have eq: "?h = \<lparr>history = [5], currentIndex = real 0\<rparr>" by (simp add: useHistory_def)
  have inv: "hist_inv ?h" unfolding eq by (rule hist_inv_intro) simp
  have ok: "limit_ok (Finite 3)" by simp
  have st: "state ?h = Some 5" using index_inv[OF inv] by (simp add: cursor_def useHistory_def)
  have dr: "distinct_run id (state ?h) [6, 7, 8]" by (simp add: st)
  have cm: "commits id (Finite 3) [6, 7, 8] ?h = Some \<lparr>history = [6, 7, 8], currentIndex = real 2\<rparr>"
    using commits_closed[OF inv ok dr] by (simp add: cursor_def useHistory_def)
  have un: "undos (length [6, 7, 8 :: nat]) \<lparr>history = [6, 7, 8 :: nat], currentIndex = real 2\<rparr> =
          \<lparr>history = [6, 7, 8], currentIndex = real (2 - length [6, 7, 8 :: nat])\<rparr>"
    by (rule undos_nat)
  have z: "real (2 - length [6, 7, 8 :: nat]) = real 0" by simp
  have "hist_inv \<lparr>history = [6, 7, 8 :: nat], currentIndex = real 0\<rparr>"
    by (rule hist_inv_intro) simp
  from index_inv[OF this] have s0: "state \<lparr>history = [6, 7, 8 :: nat], currentIndex = real 0\<rparr> = Some 6"
    by (simp add: cursor_def)
  have "commits_then_undos id (Finite 3) [6, 7, 8] ?h =
          Some \<lparr>history = [6, 7, 8], currentIndex = real 0\<rparr>"
    unfolding commits_then_undos_def cm by (simp only: option.case un z)
  then have "Option.bind (commits_then_undos id (Finite 3) [6, 7, 8] ?h) state = Some 6"
    using s0 by simp
  then show ?thesis using inv ok dr st by simp
qed

text \<open>
  C10. Without a \<open>limit\<close> option the limit is \<open>Infinity\<close>, and then no commit evicts: a
  commit of a state that differs from the current one returns the entries \<open>0..cursor\<close>
  followed by the new state, so the new length is \<open>cursor + 2\<close>. With the cursor on the
  last entry that is the old length plus one, and any number of such commits in a row
  adds as many entries.
\<close>

theorem default_limit_never_evicts:
  assumes "hist_inv h"
  shows "limit_of None = Infinity \<and> limit_of (Some None) = Infinity \<and>
         (Some (stringify s) \<noteq> map_option stringify (state h) \<longrightarrow>
            setState stringify (limit_of None) (Val s) h =
              Some \<lparr>history = take (cursor h + 1) (history h) @ [s],
                    currentIndex = currentIndex h + 1\<rparr> \<and>
            length (take (cursor h + 1) (history h) @ [s]) = cursor h + 2) \<and>
         (currentIndex h = real (length (history h)) - 1 \<and>
          distinct_run stringify (state h) ss \<longrightarrow>
            commits stringify (limit_of None) ss h =
              Some \<lparr>history = history h @ ss,
                    currentIndex = currentIndex h + real (length ss)\<rparr>)"
proof -
  have inf: "limit_of None = Infinity" "limit_of (Some None) = Infinity"
    by (simp_all add: limit_of_def)
  have ok: "limit_ok Infinity" by simp
  have ne: "\<not> exceeds n Infinity" for n by simp
  note c = hist_inv_cursor[OF assms]
  have one: "setState stringify Infinity (Val s) h =
              Some \<lparr>history = take (cursor h + 1) (history h) @ [s],
                    currentIndex = currentIndex h + 1\<rparr>"
    if "Some (stringify s) \<noteq> map_option stringify (state h)"
    using that committed_no_evict[OF assms ne, of s]
    by (simp add: setState_closed[OF assms ok])
  have len: "length (take (cursor h + 1) (history h) @ [s]) = cursor h + 2"
    using length_kept[OF assms, of s] by simp
  have many: "commits stringify Infinity ss h =
              Some \<lparr>history = history h @ ss, currentIndex = currentIndex h + real (length ss)\<rparr>"
    if e: "currentIndex h = real (length (history h)) - 1" and d: "distinct_run stringify (state h) ss"
  proof -
    have "real (cursor h) = real (length (history h)) - 1" using e c(1) by simp
    then have ce: "cursor h = length (history h) - 1" using c(2) by linarith
    have "real (length (history h) + length ss) - 1 = currentIndex h + real (length ss)"
      using e by simp
    then show ?thesis
      using commits_at_end[OF ok assms ce ne d] by simp
  qed
  show ?thesis using inf one len many by simp
qed

theorem default_limit_never_evicts_witness:
  "hist_inv \<lparr>history = [5, 6, 7 :: nat], currentIndex = 2\<rparr> \<and>
   setState id (limit_of None) (Val 9) \<lparr>history = [5, 6, 7 :: nat], currentIndex = 2\<rparr> =
     Some \<lparr>history = [5, 6, 7, 9], currentIndex = 3\<rparr> \<and>
   commits id (limit_of None) [8, 9] \<lparr>history = [5, 6, 7 :: nat], currentIndex = 2\<rparr> =
     Some \<lparr>history = [5, 6, 7, 8, 9], currentIndex = 4\<rparr>"
proof -
  let ?h = "\<lparr>history = [5, 6, 7 :: nat], currentIndex = 2\<rparr>"
  have inv: "hist_inv ?h" using hist_inv_intro[of 2 "[5, 6, 7 :: nat]"] by simp
  have st: "state ?h = Some 7" using index_inv[OF inv] by (simp add: cursor_def)
  have cu: "cursor ?h = 2" by (simp add: cursor_def)
  note t = default_limit_never_evicts[OF inv, of id 9 "[8, 9]", THEN conjunct2, THEN conjunct2]
  have a: "setState id (limit_of None) (Val 9) ?h =
     Some \<lparr>history = [5, 6, 7, 9], currentIndex = 3\<rparr>"
    using t by (simp add: st cu)
  have b: "commits id (limit_of None) [8, 9] ?h =
     Some \<lparr>history = [5, 6, 7, 8, 9], currentIndex = 4\<rparr>"
    using t by (simp add: st del: commits.simps)
  show ?thesis using inv a b by blast
qed

theorem commit_after_undo_shrinks_counterexample:
  "hist_inv \<lparr>history = [5, 6, 7 :: nat], currentIndex = 0\<rparr> \<and>
   Some (id (9::nat)) \<noteq> map_option id (state \<lparr>history = [5, 6, 7 :: nat], currentIndex = 0\<rparr>) \<and>
   setState id (limit_of None) (Val 9) \<lparr>history = [5, 6, 7 :: nat], currentIndex = 0\<rparr> =
     Some \<lparr>history = [5, 9], currentIndex = 1\<rparr> \<and>
   length [5, 9 :: nat] < length [5, 6, 7 :: nat]"
proof -
  let ?h = "\<lparr>history = [5, 6, 7 :: nat], currentIndex = 0\<rparr>"
  have inv: "hist_inv ?h" using hist_inv_intro[of 0 "[5, 6, 7 :: nat]"] by simp
  have st: "state ?h = Some 5" using index_inv[OF inv] by (simp add: cursor_def)
  have "setState id (limit_of None) (Val 9) ?h = Some \<lparr>history = [5, 9], currentIndex = 1\<rparr>"
    by (simp add: limit_of_def setState_closed[OF inv] st committed_def cursor_def)
  then show ?thesis using inv st by simp
qed

section \<open>Properties of the save and load paths\<close>

lemma JSON_stringify_eq:
  "(JSON_stringify a = JSON_stringify b) =
     ((originalFile a = None) = (originalFile b = None) \<and>
      imageSrc a = imageSrc b \<and> editedImageSrc a = editedImageSrc b \<and>
      activeFilter a = activeFilter b \<and> originalFileData a = originalFileData b)"
proof -
  have s: "(json_of_string x = json_of_string y) = (x = y)" for x y
    by (cases x; cases y) (simp_all add: json_of_string_def)
  have d: "((case x of None \<Rightarrow> [] | Some d \<Rightarrow>
               [(''originalFileData'',
                 JObject [(''dataUrl'', JString (dataUrl d)), (''name'', JString (name d))])]) =
            (case y of None \<Rightarrow> [] | Some d \<Rightarrow>
               [(''originalFileData'',
                 JObject [(''dataUrl'', JString (dataUrl d)), (''name'', JString (name d))])])) =
           (x = y)" for x y :: "file_data option"
    by (cases x; cases y) (auto intro: file_data.equality)
  have f: "((case x of None \<Rightarrow> JNull | Some f \<Rightarrow> JObject []) =
            (case y of None \<Rightarrow> JNull | Some f \<Rightarrow> JObject [])) = ((x = None) = (y = None))"
    for x y :: "File option"
    by (cases x; cases y) simp_all
  show ?thesis
    by (simp add: JSON_stringify_def s d f)
qed

lemma promise_all_Rejected: "(promise_all ps = Rejected) = (Rejected \<in> set ps)"
  by (induction ps) (auto split: promise.splits)

text \<open>What the first snapshot's guard does, whatever the cursor.\<close>

lemma getSerializableState_first_falsy:
  "historyToSave = [] \<or> falsy (imageSrc (hd historyToSave)) \<Longrightarrow>
   getSerializableState readAsDataURL historyToSave indexToSave = Resolved None"
  by (cases historyToSave) (auto simp: getSerializableState_def)

lemma handleAutoSave_first_falsy:
  "history d = [] \<or> falsy (imageSrc (hd (history d))) \<Longrightarrow>
   handleAutoSave readAsDataURL fits d ls = (Resolved (), ls)"
  by (simp add: handleAutoSave_def getSerializableState_first_falsy)

text \<open>The relation between a snapshot and its serialized form, and between a
  serialized snapshot and the rebuilt one, under a codec that gives the bytes back.\<close>

lemma serialize_state_ok:
  assumes "\<forall>f. \<exists>u b. readAsDataURL f = Some u \<and> fetch_blob u = Some b \<and> blob_bytes b = file_bytes f"
    and "originalFile s = None \<longrightarrow> originalFileData s = None"
  shows "\<exists>t. serialize_state readAsDataURL s = Resolved t \<and>
           (\<exists>r. reconstruct fetch_blob t = Resolved r \<and>
              imageSrc r = imageSrc s \<and> editedImageSrc r = editedImageSrc s \<and>
              activeFilter r = activeFilter s \<and>
              map_option file_name (originalFile r) = map_option file_name (originalFile s) \<and>
              map_option file_bytes (originalFile r) = map_option file_bytes (originalFile s))"
proof (cases "originalFile s")
  case None
  then show ?thesis using assms(2)
    by (simp add: serialize_state_def reconstruct_def)
next
  case (Some f)
  obtain u b where ub: "readAsDataURL f = Some u" "fetch_blob u = Some b"
      "blob_bytes b = file_bytes f"
    using assms(1) by blast
  show ?thesis using Some ub
    by (simp add: serialize_state_def reconstruct_def dataUrlToFile_def)
qed


lemma roundtrip_list:
  assumes "\<forall>f. \<exists>u b. readAsDataURL f = Some u \<and> fetch_blob u = Some b \<and> blob_bytes b = file_bytes f"
  shows "(\<forall>s \<in> set xs. originalFile s = None \<longrightarrow> originalFileData s = None) \<Longrightarrow>
         \<exists>ts rs. promise_all (map (serialize_state readAsDataURL) xs) = Resolved ts \<and>
           promise_all (map (reconstruct fetch_blob) ts) = Resolved rs \<and>
           list_all2 (\<lambda>r s. imageSrc r = imageSrc s \<and> editedImageSrc r = editedImageSrc s \<and>
              activeFilter r = activeFilter s \<and>
              map_option file_name (originalFile r) = map_option file_name (originalFile s) \<and>
              map_option file_bytes (originalFile r) = map_option file_bytes (originalFile s)) rs xs"
proof (induction xs)
  case Nil
  then show ?case by simp
next
  case (Cons x xs)
  obtain t r where tr: "serialize_state readAsDataURL x = Resolved t"
      "reconstruct fetch_blob t = Resolved r"
      "imageSrc r = imageSrc x" "editedImageSrc r = editedImageSrc x"
      "activeFilter r = activeFilter x"
      "map_option file_name (originalFile r) = map_option file_name (originalFile x)"
      "map_option file_bytes (originalFile r) = map_option file_bytes (originalFile x)"
    using serialize_state_ok[OF assms, of x] Cons.prems by auto
  obtain ts rs where rest: "promise_all (map (serialize_state readAsDataURL) xs) = Resolved ts"
      "promise_all (map (reconstruct fetch_blob) ts) = Resolved rs"
      "list_all2 (\<lambda>r s. imageSrc r = imageSrc s \<and> editedImageSrc r = editedImageSrc s \<and>
              activeFilter r = activeFilter s \<and>
              map_option file_name (originalFile r) = map_option file_name (originalFile s) \<and>
              map_option file_bytes (originalFile r) = map_option file_bytes (originalFile s)) rs xs"
    using Cons.IH Cons.prems by auto
  show ?case using tr rest by simp
qed

section \<open>The claims about the save and load paths\<close>

text \<open>
  C5. The guard of \<open>getSerializableState\<close> reads the first entry of the history, not the
  current one. For the history of a photo followed by the empty initial state, with
  the cursor on the empty state, the serialize path returns a record and the
  automatic save writes it under the autosave key.
\<close>

theorem autosave_guard_reads_first_snapshot:
  "state \<lparr>history = [photo, initialState], currentIndex = 1\<rparr> = Some initialState \<and>
   originalFile initialState = None \<and> falsy (imageSrc initialState) \<and>
   getSerializableState plain_reader [photo, initialState] 1 =
     Resolved (Some \<lparr>history =
        [photo\<lparr>originalFile := None,
               originalFileData := Some \<lparr>dataUrl = ''xyz'', name = ''a.png''\<rparr>\<rparr>,
         initialState], currentIndex = 1\<rparr>) \<and>
   handleAutoSave plain_reader any_size
       \<lparr>history = [photo, initialState], currentIndex = 1\<rparr> Map.empty =
     (Resolved (),
      [AUTO_SAVE_KEY \<mapsto> Json \<lparr>history =
        [photo\<lparr>originalFile := None,
               originalFileData := Some \<lparr>dataUrl = ''xyz'', name = ''a.png''\<rparr>\<rparr>,
         initialState], currentIndex = 1\<rparr>])"
proof -
  have g: "getSerializableState plain_reader [photo, initialState] 1 =
     Resolved (Some \<lparr>history =
        [photo\<lparr>originalFile := None,
               originalFileData := Some \<lparr>dataUrl = ''xyz'', name = ''a.png''\<rparr>\<rparr>,
         initialState], currentIndex = 1\<rparr>)"
    by (simp add: getSerializableState_def serialize_state_def plain_reader_def photo_def
        initialState_def falsy_def)
  show ?thesis
    by (simp add: g handleAutoSave_def any_size_def)
      (simp add: state_def index_def is_integer_def initialState_def falsy_def)
qed

text \<open>
  C6. When the saved record holds a snapshot whose placeholder does not decode, loading
  the project leaves the history store as it was (sequence and cursor) and shows the
  user exactly one more alert, the error message; the editor also removes the saved
  record.
\<close>

theorem load_is_fail_fast:
  assumes "localStorage ed PHOTO_PROJECT_KEY = Some (Json savedData)"
    and "\<exists>s \<in> set (history savedData). \<exists>d. originalFileData s = Some d \<and>
           fetch_blob (dataUrl d) = None"
  shows "store (handleLoadProject fetch_blob ed) = store ed \<and>
         alerts (handleLoadProject fetch_blob ed) =
           alerts ed @ [''Could not load the saved project. The data may be corrupted.''] \<and>
         localStorage (handleLoadProject fetch_blob ed) PHOTO_PROJECT_KEY = None"
proof -
  obtain s d where s: "s \<in> set (history savedData)" "originalFileData s = Some d"
      "fetch_blob (dataUrl d) = None"
    using assms(2) by blast
  have "reconstruct fetch_blob s = Rejected"
    using s(2,3) by (simp add: reconstruct_def dataUrlToFile_def)
  then have "Rejected \<in> set (map (reconstruct fetch_blob) (history savedData))"
    using s(1) by (metis image_eqI set_map)
  then have "promise_all (map (reconstruct fetch_blob) (history savedData)) = Rejected"
    by (simp only: promise_all_Rejected)
  then have "load_saved fetch_blob (Json savedData) (store ed) = Rejected"
    by (simp add: load_saved_def)
  then show ?thesis using assms(1) by (simp add: handleLoadProject_def)
qed


theorem load_is_fail_fast_witness:
  "store (handleLoadProject (\<lambda>u. None)
      \<lparr>store = useHistory initialState,
       localStorage = [PHOTO_PROJECT_KEY \<mapsto> Json \<lparr>history =
          [initialState, initialState\<lparr>originalFileData := Some \<lparr>dataUrl = ''xyz'', name = ''a.png''\<rparr>\<rparr>],
          currentIndex = 1\<rparr>],
       alerts = []\<rparr>) = useHistory initialState \<and>
   alerts (handleLoadProject (\<lambda>u. None)
      \<lparr>store = useHistory initialState,
       localStorage = [PHOTO_PROJECT_KEY \<mapsto> Json \<lparr>history =
          [initialState, initialState\<lparr>originalFileData := Some \<lparr>dataUrl = ''xyz'', name = ''a.png''\<rparr>\<rparr>],
          currentIndex = 1\<rparr>],
       alerts = []\<rparr>) = [''Could not load the saved project. The data may be corrupted.'']"
  using load_is_fail_fast[of
      "\<lparr>store = useHistory initialState,
        localStorage = [PHOTO_PROJECT_KEY \<mapsto> Json \<lparr>history =
          [initialState, initialState\<lparr>originalFileData := Some \<lparr>dataUrl = ''xyz'', name = ''a.png''\<rparr>\<rparr>],
          currentIndex = 1\<rparr>],
        alerts = []\<rparr>"
      "\<lparr>history =
          [initialState, initialState\<lparr>originalFileData := Some \<lparr>dataUrl = ''xyz'', name = ''a.png''\<rparr>\<rparr>],
          currentIndex = 1\<rparr>"
      "\<lambda>u. None"]
  by simp

text \<open>
  C7. Under a codec that gives back the bytes of every file (the empty one included),
  for a history that satisfies the invariant, whose first and current snapshots have an
  image source and in which a snapshot without a file carries no placeholder either:
  serializing returns a record, and loading that record (into any store) yields a
  history of the same length and cursor whose snapshots agree with the original ones
  on \<open>imageSrc\<close>, \<open>editedImageSrc\<close> and \<open>activeFilter\<close> and whose files have the same name
  and the same bytes (or are absent where they were absent).
\<close>

theorem serialize_deserialize_roundtrip:
  assumes "\<forall>f. \<exists>u b. readAsDataURL f = Some u \<and> fetch_blob u = Some b \<and> blob_bytes b = file_bytes f"
    and "hist_inv h"
    and "\<not> falsy (imageSrc (hd (history h)))"
    and "\<forall>s \<in> set (history h). originalFile s = None \<longrightarrow> originalFileData s = None"
    and "\<not> falsy (imageSrc (history h ! cursor h))"
  shows "\<exists>saved h'.
           getSerializableState readAsDataURL (history h) (currentIndex h) = Resolved (Some saved) \<and>
           load_saved fetch_blob (Json saved) g = Resolved h' \<and>
           length (history h') = length (history h) \<and> currentIndex h' = currentIndex h \<and>
           (\<forall>i < length (history h).
              imageSrc (history h' ! i) = imageSrc (history h ! i) \<and>
              editedImageSrc (history h' ! i) = editedImageSrc (history h ! i) \<and>
              activeFilter (history h' ! i) = activeFilter (history h ! i) \<and>
              map_option file_name (originalFile (history h' ! i)) =
                map_option file_name (originalFile (history h ! i)) \<and>
              map_option file_bytes (originalFile (history h' ! i)) =
                map_option file_bytes (originalFile (history h ! i)))"
proof -
  obtain ts rs where l: "promise_all (map (serialize_state readAsDataURL) (history h)) = Resolved ts"
      "promise_all (map (reconstruct fetch_blob) ts) = Resolved rs"
      "list_all2 (\<lambda>r s. imageSrc r = imageSrc s \<and> editedImageSrc r = editedImageSrc s \<and>
              activeFilter r = activeFilter s \<and>
              map_option file_name (originalFile r) = map_option file_name (originalFile s) \<and>
              map_option file_bytes (originalFile r) = map_option file_bytes (originalFile s))
         rs (history h)"
    using roundtrip_list[OF assms(1) assms(4)] by blast
  define saved where "saved = \<lparr>history = ts, currentIndex = currentIndex h\<rparr>"
  define h' where "h' = \<lparr>history = rs, currentIndex = currentIndex h\<rparr>"
  have len: "length rs = length (history h)"
    using l(3) by (rule list_all2_lengthD)
  have ne: "history h \<noteq> []" using assms(2) by (auto simp: hist_inv_def cursor_in_range_def)
  have ser: "getSerializableState readAsDataURL (history h) (currentIndex h) = Resolved (Some saved)"
    using ne assms(3) l(1) by (cases "history h") (simp_all add: getSerializableState_def saved_def)
  have "loadHistory (Some rs) (currentIndex h) g = h'"
    using assms(2) len ne by (simp add: loadHistory_def hist_inv_def cursor_in_range_def h'_def)
  then have ld: "load_saved fetch_blob (Json saved) g = Resolved h'"
    using l(2) by (simp add: load_saved_def saved_def)
  have pt: "\<forall>i < length (history h).
              imageSrc (history h' ! i) = imageSrc (history h ! i) \<and>
              editedImageSrc (history h' ! i) = editedImageSrc (history h ! i) \<and>
              activeFilter (history h' ! i) = activeFilter (history h ! i) \<and>
              map_option file_name (originalFile (history h' ! i)) =
                map_option file_name (originalFile (history h ! i)) \<and>
              map_option file_bytes (originalFile (history h' ! i)) =
                map_option file_bytes (originalFile (history h ! i))"
    using l(3) by (simp add: list_all2_conv_all_nth h'_def)
  have "length (history h') = length (history h)" "currentIndex h' = currentIndex h"
    using len by (simp_all add: h'_def)
  then show ?thesis using ser ld pt by blast
qed

theorem serialize_deserialize_roundtrip_witness:
  "hist_inv \<lparr>history = [photo, empty_photo, initialState\<lparr>imageSrc := Some ''data:1''\<rparr>], currentIndex = 1\<rparr> \<and>
   \<not> falsy (imageSrc photo) \<and> \<not> falsy (imageSrc empty_photo) \<and>
   getSerializableState plain_reader [photo, empty_photo, initialState\<lparr>imageSrc := Some ''data:1''\<rparr>] 1 =
     Resolved (Some \<lparr>history =
       [photo\<lparr>originalFile := None, originalFileData := Some \<lparr>dataUrl = ''xyz'', name = ''a.png''\<rparr>\<rparr>,
        empty_photo\<lparr>originalFile := None, originalFileData := Some \<lparr>dataUrl = [], name = ''e.png''\<rparr>\<rparr>,
        initialState\<lparr>imageSrc := Some ''data:1''\<rparr>], currentIndex = 1\<rparr>) \<and>
   (\<exists>h'. load_saved plain_fetch (Json \<lparr>history =
       [photo\<lparr>originalFile := None, originalFileData := Some \<lparr>dataUrl = ''xyz'', name = ''a.png''\<rparr>\<rparr>,
        empty_photo\<lparr>originalFile := None, originalFileData := Some \<lparr>dataUrl = [], name = ''e.png''\<rparr>\<rparr>,
        initialState\<lparr>imageSrc := Some ''data:1''\<rparr>], currentIndex = 1\<rparr>) (useHistory initialState) = Resolved h' \<and>
      length (history h') = 3 \<and> currentIndex h' = 1 \<and>
      map_option file_bytes (originalFile (history h' ! 1)) = Some [] \<and>
      map_option file_name (originalFile (history h' ! 1)) = Some ''e.png'')"
proof -
  let ?h = "\<lparr>history = [photo, empty_photo, initialState\<lparr>imageSrc := Some ''data:1''\<rparr>], currentIndex = 1\<rparr>"
  have codec: "\<forall>f. \<exists>u b. plain_reader f = Some u \<and> plain_fetch u = Some b \<and> blob_bytes b = file_bytes f"
    by (simp add: plain_reader_def plain_fetch_def)
  have inv: "hist_inv ?h" by (simp add: hist_inv_def cursor_in_range_def is_integer_def)
  have first: "\<not> falsy (imageSrc (hd (history ?h)))" by (simp add: falsy_def photo_def)
  have wf: "\<forall>s \<in> set (history ?h). originalFile s = None \<longrightarrow> originalFileData s = None"
    by (simp add: photo_def empty_photo_def initialState_def)
  have cur: "\<not> falsy (imageSrc (history ?h ! cursor ?h))"
    by (simp add: falsy_def empty_photo_def cursor_def)
  have cur': "\<not> falsy (imageSrc empty_photo)" by (simp add: falsy_def empty_photo_def)
  have ser: "getSerializableState plain_reader (history ?h) (currentIndex ?h) =
     Resolved (Some \<lparr>history =
       [photo\<lparr>originalFile := None, originalFileData := Some \<lparr>dataUrl = ''xyz'', name = ''a.png''\<rparr>\<rparr>,
        empty_photo\<lparr>originalFile := None, originalFileData := Some \<lparr>dataUrl = [], name = ''e.png''\<rparr>\<rparr>,
        initialState\<lparr>imageSrc := Some ''data:1''\<rparr>], currentIndex = 1\<rparr>)"
    by (simp add: getSerializableState_def serialize_state_def plain_reader_def photo_def
        empty_photo_def initialState_def falsy_def)
  obtain saved h' where r:
      "getSerializableState plain_reader (history ?h) (currentIndex ?h) = Resolved (Some saved)"
      "load_saved plain_fetch (Json saved) (useHistory initialState) = Resolved h'"
      "length (history h') = length (history ?h)" "currentIndex h' = currentIndex ?h"
      "\<forall>i < length (history ?h).
         map_option file_name (originalFile (history h' ! i)) =
           map_option file_name (originalFile (history ?h ! i)) \<and>
         map_option file_bytes (originalFile (history h' ! i)) =
           map_option file_bytes (originalFile (history ?h ! i))"
    using serialize_deserialize_roundtrip[OF codec inv first wf cur, of "useHistory initialState"]
    by blast
  have saved: "saved = \<lparr>history =
       [photo\<lparr>originalFile := None, originalFileData := Some \<lparr>dataUrl = ''xyz'', name = ''a.png''\<rparr>\<rparr>,
        empty_photo\<lparr>originalFile := None, originalFileData := Some \<lparr>dataUrl = [], name = ''e.png''\<rparr>\<rparr>,
        initialState\<lparr>imageSrc := Some ''data:1''\<rparr>], currentIndex = 1\<rparr>"
    using r(1) unfolding ser by simp
  have one: "map_option file_bytes (originalFile (history h' ! 1)) = Some [] \<and>
      map_option file_name (originalFile (history h' ! 1)) = Some ''e.png''"
    using r(5) by (simp add: empty_photo_def)
  have "length (history h') = 3 \<and> currentIndex h' = 1" using r(3,4) by simp
  then show ?thesis
    using inv first cur' ser r(2) one unfolding saved by simp
qed

theorem serialize_empty_project_counterexample:
  "hist_inv (useHistory initialState) \<and>
   getSerializableState plain_reader (history (useHistory initialState))
       (currentIndex (useHistory initialState)) = Resolved None"
  by (simp add: hist_inv_def cursor_in_range_def is_integer_def useHistory_def
      getSerializableState_def initialState_def falsy_def)

section \<open>The claim about what the commit compares\<close>

text \<open>
  C1. What the commit compares is the \<open>JSON.stringify\<close> text of the new state and of
  the current snapshot. In that text the content and the name of a file take no part,
  but whether a file is there does: two snapshots have the same text exactly when
  they agree on the presence of a file and on every other field. On a store of the
  photo editor that satisfies the invariant, with a limit \<open>L \<ge> 1\<close> (or none), a commit
  of a state whose text differs from the current snapshot's returns; the new sequence
  is the old one cut to the indices \<open>0..cursor\<close>, followed by the new state, with
  entries removed from the front while the length exceeds \<open>L\<close>; the cursor is the new
  last index, which is the old cursor plus one minus the number of evicted entries
  (never below 0); after an eviction the length is exactly \<open>L\<close>, and without one it is
  \<open>cursor + 2\<close>. When the two texts are equal the commit leaves the store as it is.
\<close>

theorem setState_commit:
  assumes "hist_inv h" and "limit_ok L"
  shows "((JSON_stringify a = JSON_stringify b) =
            ((originalFile a = None) = (originalFile b = None) \<and>
             imageSrc a = imageSrc b \<and> editedImageSrc a = editedImageSrc b \<and>
             activeFilter a = activeFilter b \<and> originalFileData a = originalFileData b)) \<and>
         (Some (JSON_stringify next) \<noteq> map_option JSON_stringify (state h) \<longrightarrow>
            (\<exists>h'. setState JSON_stringify L (Val next) h = Some h' \<and>
               history h' =
                 drop (evicted (cursor h + 2) L) (take (cursor h + 1) (history h) @ [next]) \<and>
               currentIndex h' = real (length (history h')) - 1 \<and>
               currentIndex h' = max 0 (currentIndex h + 1 - real (evicted (cursor h + 2) L)) \<and>
               (\<forall>l. L = Finite l \<and> int (cursor h + 2) > l \<longrightarrow> int (length (history h')) = l) \<and>
               (\<not> exceeds (cursor h + 2) L \<longrightarrow> length (history h') = cursor h + 2)))
       \<and> (Some (JSON_stringify next) = map_option JSON_stringify (state h) \<longrightarrow>
            setState JSON_stringify L (Val next) h = Some h)"
proof -
  note t = setState_commit_any[OF assms, of JSON_stringify "next"]
  have "(JSON_stringify a = JSON_stringify b) =
            ((originalFile a = None) = (originalFile b = None) \<and>
             imageSrc a = imageSrc b \<and> editedImageSrc a = editedImageSrc b \<and>
             activeFilter a = activeFilter b \<and> originalFileData a = originalFileData b)"
    by (rule JSON_stringify_eq)
  then show ?thesis using t by blast
qed

theorem setState_commit_witness:
  "hist_inv \<lparr>history = [initialState, photo, empty_photo], currentIndex = 1\<rparr> \<and>
   limit_ok (Finite 2) \<and>
   setState JSON_stringify (Finite 2) (Val (photo\<lparr>activeFilter := ''sepia(1)''\<rparr>))
       \<lparr>history = [initialState, photo, empty_photo], currentIndex = 1\<rparr> =
     Some \<lparr>history = [photo, photo\<lparr>activeFilter := ''sepia(1)''\<rparr>], currentIndex = 1\<rparr> \<and>
   setState JSON_stringify (Finite 2)
       (Val (photo\<lparr>originalFile :=
               Some \<lparr>file_name = ''b.png'', file_type = ''image/png'', file_bytes = ''uvw''\<rparr>\<rparr>))
       \<lparr>history = [initialState, photo, empty_photo], currentIndex = 1\<rparr> =
     Some \<lparr>history = [initialState, photo, empty_photo], currentIndex = 1\<rparr>"
proof -
  let ?h = "\<lparr>history = [initialState, photo, empty_photo], currentIndex = 1\<rparr>"
  let ?n = "photo\<lparr>activeFilter := ''sepia(1)''\<rparr>"
  let ?m = "photo\<lparr>originalFile :=
               Some \<lparr>file_name = ''b.png'', file_type = ''image/png'', file_bytes = ''uvw''\<rparr>\<rparr>"
  have inv: "hist_inv ?h" using hist_inv_intro[of 1 "[initialState, photo, empty_photo]"] by simp
  have ok: "limit_ok (Finite 2)" by simp
  have st: "state ?h = Some photo" using index_inv[OF inv] by (simp add: cursor_def)
  have cu: "cursor ?h = 1" by (simp add: cursor_def)
  have dn: "JSON_stringify ?n \<noteq> JSON_stringify photo"
    using setState_commit[OF inv ok, of ?n photo ?n, THEN conjunct1] by (simp add: photo_def)
  have dm: "JSON_stringify ?m = JSON_stringify photo"
    using setState_commit[OF inv ok, of ?m photo ?m, THEN conjunct1] by (simp add: photo_def)
  have a: "setState JSON_stringify (Finite 2) (Val ?m) ?h = Some ?h"
    using setState_commit[OF inv ok, of ?m photo ?m, THEN conjunct2, THEN conjunct2]
    by (simp add: st dm)
  obtain h' where h': "setState JSON_stringify (Finite 2) (Val ?n) ?h = Some h'"
     "history h' = [photo, ?n]" "currentIndex h' = 1"
    using setState_commit[OF inv ok, of ?n photo ?n, THEN conjunct2, THEN conjunct1] dn
    by (auto simp: st cu)
  have "h' = \<lparr>history = [photo, ?n], currentIndex = 1\<rparr>"
    using h'(2,3) by (cases h') simp
  then show ?thesis using inv ok a h'(1) by simp
qed

theorem commit_file_removed_counterexample:
  "hist_inv (useHistory photo) \<and> limit_ok (Finite 10) \<and>
   state (useHistory photo) = Some photo \<and>
   serializable (photo\<lparr>originalFile := None\<rparr>) = serializable photo \<and>
   setState JSON_stringify (Finite 10) (Val (photo\<lparr>originalFile := None\<rparr>)) (useHistory photo) =
     Some \<lparr>history = [photo, photo\<lparr>originalFile := None\<rparr>], currentIndex = 1\<rparr>"
proof -
  have eq: "useHistory photo = \<lparr>history = [photo], currentIndex = real 0\<rparr>"
    by (simp add: useHistory_def)
  have inv: "hist_inv (useHistory photo)" unfolding eq by (rule hist_inv_intro) simp
  have ok: "limit_ok (Finite 10)" by simp
  have st: "state (useHistory photo) = Some photo"
    using index_inv[OF inv] by (simp add: cursor_def useHistory_def)
  have d: "JSON_stringify (photo\<lparr>originalFile := None\<rparr>) \<noteq> JSON_stringify photo"
    by (simp add: JSON_stringify_eq photo_def)
  have "setState JSON_stringify (Finite 10) (Val (photo\<lparr>originalFile := None\<rparr>)) (useHistory photo) =
     Some \<lparr>history = [photo, photo\<lparr>originalFile := None\<rparr>], currentIndex = 1\<rparr>"
    by (subst setState_closed[OF inv ok], simp add: st d)
      (simp add: committed_def cursor_def useHistory_def)
  then show ?thesis using inv ok st by (simp add: serializable_def)
qed

section \<open>Properties of the autosave hook\<close>

lemma render_keeps:
  "saves (render c d s) = saves s" "inFlight (render c d s) = inFlight s"
  "status (render c d s) = status s" "lastSaved (render c d s) = lastSaved s"
  "now (render c d s) = now s" "nextTick (render c d s) = nextTick s"
  "period (render c d s) = period s" "freshData (render c d s) = freshData s"
  "dataRef (render c d s) = d"
  by (simp_all add: render_def debounce_effect_def clear_debounce_def clearTimeout_def
      setTimeout_def Let_def split: option.splits)

lemma after_update_keeps:
  "saves (after_update old s) = saves s" "inFlight (after_update old s) = inFlight s"
  "status (after_update old s) = status s" "lastSaved (after_update old s) = lastSaved s"
  "now (after_update old s) = now s" "nextTick (after_update old s) = nextTick s"
  "period (after_update old s) = period s" "freshData (after_update old s) = freshData s"
  "dataRef (after_update old s) = dataRef s"
  by (simp_all add: after_update_def render_keeps)

lemma fold_debounce:
  "saves (fold (\<lambda>p. performSave Debounce t) ps s) =
     saves s @ map (\<lambda>p. (t, Debounce, dataRef s)) ps"
  "inFlight (fold (\<lambda>p. performSave Debounce t) ps s) = inFlight s + length ps"
  "dataRef (fold (\<lambda>p. performSave Debounce t) ps s) = dataRef s"
  "status (fold (\<lambda>p. performSave Debounce t) ps s) = (if ps = [] then status s else Saving)"
  "lastSaved (fold (\<lambda>p. performSave Debounce t) ps s) = lastSaved s"
  "now (fold (\<lambda>p. performSave Debounce t) ps s) = now s"
  "nextTick (fold (\<lambda>p. performSave Debounce t) ps s) = nextTick s"
  "period (fold (\<lambda>p. performSave Debounce t) ps s) = period s"
  "freshData (fold (\<lambda>p. performSave Debounce t) ps s) = freshData s"
  "nextId (fold (\<lambda>p. performSave Debounce t) ps s) = nextId s"
  "isMounted (fold (\<lambda>p. performSave Debounce t) ps s) = isMounted s"
  "debounceTimeoutRef (fold (\<lambda>p. performSave Debounce t) ps s) = debounceTimeoutRef s"
  "hasCleanup (fold (\<lambda>p. performSave Debounce t) ps s) = hasCleanup s"
  by (induction ps arbitrary: s) (simp_all add: performSave_def)

lemma fire_due_fields:
  "saves (fire_due t s) =
     saves s @ (if nextTick s \<le> t then [(t, Interval, dataRef s)] else []) @
       map (\<lambda>p. (t, Debounce, dataRef s)) (filter (\<lambda>p. snd p \<le> t) (timeouts s))"
  "inFlight (fire_due t s) =
     inFlight s + (if nextTick s \<le> t then 1 else 0) +
       length (filter (\<lambda>p. snd p \<le> t) (timeouts s))"
  "timeouts (fire_due t s) = filter (\<lambda>p. \<not> snd p \<le> t) (timeouts s)"
  "status (fire_due t s) =
     (if nextTick s \<le> t \<or> filter (\<lambda>p. snd p \<le> t) (timeouts s) \<noteq> [] then Saving
      else status s)"
  "lastSaved (fire_due t s) = lastSaved s" "now (fire_due t s) = now s"
  "nextTick (fire_due t s) = (if nextTick s \<le> t then nextTick s + period s else nextTick s)"
  "period (fire_due t s) = period s" "freshData (fire_due t s) = freshData s"
  "dataRef (fire_due t s) = dataRef s" "nextId (fire_due t s) = nextId s"
  "isMounted (fire_due t s) = isMounted s"
  "debounceTimeoutRef (fire_due t s) = debounceTimeoutRef s"
  "hasCleanup (fire_due t s) = hasCleanup s"
  by (simp_all add: fire_due_def Let_def fold_debounce performSave_def)

lemma hook_inv_mount: "hook_inv (mount fresh data interval t0)"
  by (simp add: hook_inv_def mount_def interval_effect_def debounce_effect_def)

lemma clear_debounce_inv:
  assumes "timeouts s = [] \<or>
       (\<exists>i dl. timeouts s = [(i, dl)] \<and> debounceTimeoutRef s = Some i \<and> 0 < i)"
  shows "clear_debounce s = s\<lparr>timeouts := []\<rparr>"
proof (cases "debounceTimeoutRef s")
  case None
  then show ?thesis using assms by (auto simp: clear_debounce_def)
next
  case (Some i)
  show ?thesis
  proof (cases "timeouts s = []")
    case True
    then show ?thesis using Some by (simp add: clear_debounce_def clearTimeout_def)
  next
    case False
    then obtain dl where "timeouts s = [(i, dl)]" "0 < i" using assms Some by auto
    then show ?thesis using Some by (simp add: clear_debounce_def clearTimeout_def)
  qed
qed

lemma render_changed:
  assumes "hook_inv s"
  shows "timeouts (render True data s) = [(nextId s, now s + 2500)]"
    "debounceTimeoutRef (render True data s) = Some (nextId s)"
    "nextId (render True data s) = nextId s + 1"
    "isMounted (render True data s)"
proof -
  let ?s0 = "s\<lparr>dataRef := data\<rparr>"
  let ?s1 = "?s0\<lparr>timeouts := []\<rparr>"
  have pre: "timeouts ?s0 = [] \<or>
       (\<exists>i dl. timeouts ?s0 = [(i, dl)] \<and> debounceTimeoutRef ?s0 = Some i \<and> 0 < i)"
    using assms by (auto simp: hook_inv_def)
  have c0: "clear_debounce ?s0 = ?s1" by (rule clear_debounce_inv[OF pre])
  have c1: "clear_debounce ?s1 = ?s1"
    using clear_debounce_inv[of ?s1] by simp
  have m: "isMounted ?s0" "isMounted ?s1" using assms by (simp_all add: hook_inv_def)
  have e0: "debounce_effect ?s0 =
      s\<lparr>dataRef := data, timeouts := [(nextId s, now s + 2500)], nextId := nextId s + 1,
        debounceTimeoutRef := Some (nextId s), hasCleanup := True\<rparr>"
    using m by (simp add: debounce_effect_def c0 setTimeout_def)
  have e1: "debounce_effect ?s1 =
      s\<lparr>dataRef := data, timeouts := [(nextId s, now s + 2500)], nextId := nextId s + 1,
        debounceTimeoutRef := Some (nextId s), hasCleanup := True\<rparr>"
    using m by (simp add: debounce_effect_def c1 setTimeout_def)
  have r: "render True data s =
      s\<lparr>dataRef := data, timeouts := [(nextId s, now s + 2500)], nextId := nextId s + 1,
        debounceTimeoutRef := Some (nextId s), hasCleanup := True\<rparr>"
    using e0 e1 c0 by (simp add: render_def Let_def)
  show "timeouts (render True data s) = [(nextId s, now s + 2500)]"
    "debounceTimeoutRef (render True data s) = Some (nextId s)"
    "nextId (render True data s) = nextId s + 1"
    "isMounted (render True data s)"
    using assms unfolding r by (simp_all add: hook_inv_def)
qed

lemma hook_inv_render: "hook_inv s \<Longrightarrow> hook_inv (render changed data s)"
proof (cases changed)
  case True
  assume "hook_inv s"
  from render_changed[OF this, of data] this show ?thesis
    using True by (simp add: hook_inv_def render_keeps)
next
  case False
  assume "hook_inv s"
  then show ?thesis using False by (simp add: hook_inv_def render_def Let_def)
qed

lemma hook_inv_after_update: "hook_inv s \<Longrightarrow> hook_inv (after_update old s)"
  by (simp add: after_update_def hook_inv_render)

lemma hook_inv_fire_due: "hook_inv s \<Longrightarrow> hook_inv (fire_due t s)"
proof -
  assume inv: "hook_inv s"
  show ?thesis
  proof (cases "timeouts s = []")
    case True
    then show ?thesis using inv by (simp add: hook_inv_def fire_due_fields)
  next
    case False
    then obtain i dl where t: "timeouts s = [(i, dl)]" "debounceTimeoutRef s = Some i"
        "0 < i" "i < nextId s"
      using inv by (auto simp: hook_inv_def)
    show ?thesis using inv t by (simp add: hook_inv_def fire_due_fields)
  qed
qed

lemma hook_inv_tick: "hook_inv s \<Longrightarrow> hook_inv (tick s)"
proof -
  assume "hook_inv s"
  then have "hook_inv (s\<lparr>now := now s + 1\<rparr>)" by (simp add: hook_inv_def)
  then show ?thesis unfolding tick_def by (intro hook_inv_after_update hook_inv_fire_due)
qed

lemma elapse_Suc: "elapse (Suc e) s = tick (elapse e s)"
  by (simp add: elapse_def)

lemma elapse_0: "elapse 0 s = s"
  by (simp add: elapse_def)

lemma hook_inv_elapse: "hook_inv s \<Longrightarrow> hook_inv (elapse e s)"
  by (induction e) (simp_all add: elapse_0 elapse_Suc hook_inv_tick)

lemma hook_inv_settle: "hook_inv s \<Longrightarrow> hook_inv (settle ok s)"
proof -
  assume inv: "hook_inv s"
  have "hook_inv (s\<lparr>status := Saved, lastSaved := Some ((now s div 60000) mod 1440),
                inFlight := inFlight s - 1\<rparr>)"
    "hook_inv (s\<lparr>status := Error, inFlight := inFlight s - 1\<rparr>)"
    using inv by (simp_all add: hook_inv_def)
  then show ?thesis using inv by (simp add: settle_def hook_inv_after_update)
qed

lemma hook_inv_run: "hook_inv s \<Longrightarrow> hook_inv (run evs s)"
proof (induction evs arbitrary: s)
  case Nil
  then show ?case by (simp add: run_def)
next
  case (Cons ev evs)
  have "hook_inv (step s ev)"
    using Cons.prems by (cases ev) (simp_all add: hook_inv_render hook_inv_elapse hook_inv_settle)
  from Cons.IH[OF this] show ?case by (simp add: run_def)
qed

text \<open>While no timer falls due, only the clock moves.\<close>

lemma tick_quiet:
  assumes "\<forall>p \<in> set (timeouts s). now s + 1 < snd p" and "now s + 1 < nextTick s"
  shows "tick s = s\<lparr>now := now s + 1\<rparr>"
proof -
  define t where "t = now s + 1"
  have f: "filter (\<lambda>p. snd p \<le> t) (timeouts s) = []"
    using assms(1) by (auto simp: filter_empty_conv t_def)
  have g: "filter (\<lambda>p. \<not> snd p \<le> t) (timeouts s) = timeouts s"
    using assms(1) by (auto simp: filter_id_conv t_def)
  have n: "\<not> nextTick s \<le> t" using assms(2) by (simp add: t_def)
  have "fire_due t (s\<lparr>now := t\<rparr>) = s\<lparr>now := t\<rparr>"
    using n by (simp add: fire_due_def Let_def f g)
  then have "tick s = s\<lparr>now := t\<rparr>"
    unfolding tick_def t_def[symmetric] by (simp add: after_update_def)
  then show ?thesis by (simp add: t_def)
qed

lemma elapse_quiet:
  "\<forall>p \<in> set (timeouts s). now s + e < snd p \<Longrightarrow> now s + e < nextTick s \<Longrightarrow>
   elapse e s = s\<lparr>now := now s + e\<rparr>"
proof (induction e)
  case 0
  then show ?case by (simp add: elapse_0)
next
  case (Suc e)
  have a: "\<forall>p \<in> set (timeouts s). now s + e < snd p" using Suc.prems(1) by auto
  have b: "now s + e < nextTick s" using Suc.prems(2) by simp
  have ih: "elapse e s = s\<lparr>now := now s + e\<rparr>" by (rule Suc.IH[OF a b])
  have "tick (s\<lparr>now := now s + e\<rparr>) = s\<lparr>now := now s + e\<rparr>\<lparr>now := now (s\<lparr>now := now s + e\<rparr>) + 1\<rparr>"
    by (rule tick_quiet) (use Suc.prems in auto)
  then show ?case by (simp add: elapse_Suc ih)
qed

lemma after_update_old: "after_update (old\<lparr>now := t\<rparr>) s = after_update old s"
  by (simp add: after_update_def)

text \<open>Up to the deadline of the one pending timeout nothing happens; the last
  millisecond is the tick in which it fires.\<close>

lemma elapse_deadline:
  assumes "timeouts s = [(i, now s + 2500)]" and "now s + 2500 \<le> nextTick s"
  shows "elapse 2500 s =
           after_update s (fire_due (now s + 2500) (s\<lparr>now := now s + 2500\<rparr>))"
proof -
  have q: "elapse 2499 s = s\<lparr>now := now s + 2499\<rparr>"
    by (rule elapse_quiet) (use assms in simp_all)
  have "elapse 2500 s = elapse (Suc 2499) s" by simp
  also have "\<dots> = tick (s\<lparr>now := now s + 2499\<rparr>)" by (simp only: elapse_Suc q)
  also have "\<dots> = after_update s (fire_due (now s + 2500) (s\<lparr>now := now s + 2500\<rparr>))"
    by (simp add: tick_def after_update_old add.commute)
  finally show ?thesis .
qed

text \<open>The cycle of a caller that builds its data anew in every render: the timeout
  fires, the status changes, the component renders, and the debounce effect arms the
  next timeout; when the save settles it does so again.\<close>

lemma fire_cycle:
  assumes "hook_inv s" and "freshData s" and "timeouts s = [(i, now s + 2500)]"
    and "now s + 2500 < nextTick s" and "status s \<noteq> Saving"
  shows "saves (elapse 2500 s) = saves s @ [(now s + 2500, Debounce, dataRef s)]"
    and "timeouts (elapse 2500 s) = [(nextId s, now s + 5000)]"
    and "now (elapse 2500 s) = now s + 2500" and "status (elapse 2500 s) = Saving"
    and "inFlight (elapse 2500 s) = inFlight s + 1"
    and "nextTick (elapse 2500 s) = nextTick s" and "freshData (elapse 2500 s)"
    and "dataRef (elapse 2500 s) = dataRef s" and "hook_inv (elapse 2500 s)"
proof -
  define T where "T = now s + 2500"
  define s2 where "s2 = fire_due T (s\<lparr>now := T\<rparr>)"
  have e: "elapse 2500 s = after_update s s2"
    unfolding s2_def T_def by (rule elapse_deadline) (use assms in simp_all)
  have n: "\<not> nextTick s \<le> T" using assms(4) by (simp add: T_def)
  have d: "filter (\<lambda>p. snd p \<le> T) (timeouts s) = [(i, T)]"
    "filter (\<lambda>p. \<not> snd p \<le> T) (timeouts s) = []"
    using assms(3) by (simp_all add: T_def)
  have inv0: "hook_inv (s\<lparr>now := T\<rparr>)" using assms(1) by (simp add: hook_inv_def)
  have inv2: "hook_inv s2" unfolding s2_def by (rule hook_inv_fire_due[OF inv0])
  have f: "saves s2 = saves s @ [(T, Debounce, dataRef s)]" "timeouts s2 = []"
    "status s2 = Saving" "now s2 = T" "inFlight s2 = inFlight s + 1"
    "nextTick s2 = nextTick s" "freshData s2" "dataRef s2 = dataRef s" "nextId s2 = nextId s"
    "lastSaved s2 = lastSaved s"
    using n d assms(2) by (simp_all add: s2_def fire_due_fields)
  have a: "after_update s s2 = render True (dataRef s) s2"
    using f assms(5) by (simp add: after_update_def)
  show "saves (elapse 2500 s) = saves s @ [(now s + 2500, Debounce, dataRef s)]"
    "now (elapse 2500 s) = now s + 2500" "status (elapse 2500 s) = Saving"
    "inFlight (elapse 2500 s) = inFlight s + 1"
    "nextTick (elapse 2500 s) = nextTick s" "freshData (elapse 2500 s)"
    "dataRef (elapse 2500 s) = dataRef s"
    unfolding e a using f by (simp_all add: render_keeps T_def)
  show "timeouts (elapse 2500 s) = [(nextId s, now s + 5000)]"
    unfolding e a using render_changed(1)[OF inv2, of "dataRef s"] f by (simp add: T_def)
  show "hook_inv (elapse 2500 s)" by (rule hook_inv_elapse[OF assms(1)])
qed

lemma settle_cycle:
  assumes "hook_inv s" and "freshData s" and "0 < inFlight s" and "status s = Saving"
  shows "saves (settle True s) = saves s"
    and "timeouts (settle True s) = [(nextId s, now s + 2500)]"
    and "now (settle True s) = now s" and "status (settle True s) = Saved"
    and "inFlight (settle True s) = inFlight s - 1"
    and "nextTick (settle True s) = nextTick s" and "freshData (settle True s)"
    and "dataRef (settle True s) = dataRef s" and "hook_inv (settle True s)"
proof -
  define x where "x = s\<lparr>status := Saved, lastSaved := Some ((now s div 60000) mod 1440),
                inFlight := inFlight s - 1\<rparr>"
  have invx: "hook_inv x" using assms(1) by (simp add: x_def hook_inv_def)
  have "settle True s = after_update s x"
    using assms(3) by (simp add: settle_def x_def)
  also have "\<dots> = render True (dataRef s) x"
    using assms(2,4) by (simp add: after_update_def x_def)
  finally have e: "settle True s = render True (dataRef s) x" .
  show "saves (settle True s) = saves s" "now (settle True s) = now s"
    "status (settle True s) = Saved" "inFlight (settle True s) = inFlight s - 1"
    "nextTick (settle True s) = nextTick s" "freshData (settle True s)"
    "dataRef (settle True s) = dataRef s"
    unfolding e using assms(2) by (simp_all add: render_keeps x_def)
  show "timeouts (settle True s) = [(nextId s, now s + 2500)]"
    unfolding e using render_changed(1)[OF invx, of "dataRef s"] by (simp add: x_def)
  show "hook_inv (settle True s)" by (rule hook_inv_settle[OF assms(1)])
qed

lemma resave_cycle:
  assumes "hook_inv s" and "freshData s" and "timeouts s = [(i, now s + 2500)]"
    and "now s + 2500 < nextTick s" and "status s \<noteq> Saving"
  shows "debounce_saves (settle True (elapse 2500 s)) =
           debounce_saves s @ [(now s + 2500, Debounce, dataRef s)]"
    and "hook_inv (settle True (elapse 2500 s))" and "freshData (settle True (elapse 2500 s))"
    and "\<exists>j. timeouts (settle True (elapse 2500 s)) = [(j, now s + 5000)]"
    and "now (settle True (elapse 2500 s)) = now s + 2500"
    and "nextTick (settle True (elapse 2500 s)) = nextTick s"
    and "status (settle True (elapse 2500 s)) \<noteq> Saving"
    and "dataRef (settle True (elapse 2500 s)) = dataRef s"
proof -
  note f = fire_cycle[OF assms]
  have p: "0 < inFlight (elapse 2500 s)" using f(5) by simp
  note g = settle_cycle[OF f(9) f(7) p f(4)]
  show "debounce_saves (settle True (elapse 2500 s)) =
           debounce_saves s @ [(now s + 2500, Debounce, dataRef s)]"
    by (simp add: debounce_saves_def g(1) f(1))
  show "hook_inv (settle True (elapse 2500 s))" by (rule g(9))
  show "freshData (settle True (elapse 2500 s))" by (rule g(7))
  show "\<exists>j. timeouts (settle True (elapse 2500 s)) = [(j, now s + 5000)]"
    using g(2) f(3) by simp
  show "now (settle True (elapse 2500 s)) = now s + 2500" using g(3) f(3) by simp
  show "nextTick (settle True (elapse 2500 s)) = nextTick s" using g(6) f(6) by simp
  show "status (settle True (elapse 2500 s)) \<noteq> Saving" using g(4) by simp
  show "dataRef (settle True (elapse 2500 s)) = dataRef s" using g(8) f(8) by simp
qed

text \<open>With a caller that passes the same reference as long as nothing changes, the
  timeout fires once and nothing is armed afterwards.\<close>

lemma fire_stable:
  assumes "hook_inv s" and "\<not> freshData s" and "timeouts s = [(i, now s + 2500)]"
    and "now s + 2500 < nextTick s"
  shows "saves (elapse 2500 s) = saves s @ [(now s + 2500, Debounce, dataRef s)]"
    and "timeouts (elapse 2500 s) = []"
    and "now (elapse 2500 s) = now s + 2500" and "nextTick (elapse 2500 s) = nextTick s"
    and "\<not> freshData (elapse 2500 s)" and "inFlight (elapse 2500 s) = inFlight s + 1"
proof -
  define T where "T = now s + 2500"
  define s2 where "s2 = fire_due T (s\<lparr>now := T\<rparr>)"
  have e: "elapse 2500 s = after_update s s2"
    unfolding s2_def T_def by (rule elapse_deadline) (use assms in simp_all)
  have n: "\<not> nextTick s \<le> T" using assms(4) by (simp add: T_def)
  have d: "filter (\<lambda>p. snd p \<le> T) (timeouts s) = [(i, T)]"
    "filter (\<lambda>p. \<not> snd p \<le> T) (timeouts s) = []"
    using assms(3) by (simp_all add: T_def)
  have f: "saves s2 = saves s @ [(T, Debounce, dataRef s)]" "timeouts s2 = []"
    "now s2 = T" "inFlight s2 = inFlight s + 1" "nextTick s2 = nextTick s" "\<not> freshData s2"
    using n d assms(2) by (simp_all add: s2_def fire_due_fields)
  have t: "timeouts (after_update s s2) = []"
    using f by (simp add: after_update_def render_def)
  show "saves (elapse 2500 s) = saves s @ [(now s + 2500, Debounce, dataRef s)]"
    "now (elapse 2500 s) = now s + 2500" "nextTick (elapse 2500 s) = nextTick s"
    "\<not> freshData (elapse 2500 s)" "inFlight (elapse 2500 s) = inFlight s + 1"
    unfolding e using f by (simp_all add: after_update_keeps T_def)
  show "timeouts (elapse 2500 s) = []" unfolding e by (rule t)
qed

lemma debounce_once_stable_caller:
  "debounce_saves
     (run [Render True 7, Elapse 2500, Settle True, Elapse 2500]
        (mount False (0::nat) 120000 0)) = [(2500, Debounce, 7)]"
proof -
  define m where "m = mount False (0::nat) 120000 0"
  define s0 where "s0 = render True 7 m"
  define s1 where "s1 = elapse 2500 s0"
  define s2 where "s2 = settle True s1"
  have im: "hook_inv m" unfolding m_def by (rule hook_inv_mount)
  have fm: "now m = 0" "nextTick m = 120000" "saves m = []" "\<not> freshData m"
    by (simp_all add: m_def mount_def interval_effect_def debounce_effect_def)
  have i0: "hook_inv s0" unfolding s0_def by (rule hook_inv_render[OF im])
  have f0: "\<not> freshData s0" "now s0 = 0" "nextTick s0 = 120000" "dataRef s0 = 7" "saves s0 = []"
    using fm by (simp_all add: s0_def render_keeps)
  have t0: "timeouts s0 = [(nextId m, now s0 + 2500)]"
    using render_changed(1)[OF im, of 7] fm(1) f0(2) by (simp add: s0_def)
  have a: "now s0 + 2500 < nextTick s0" using f0 by simp
  note r1 = fire_stable[OF i0 f0(1) t0 a, folded s1_def]
  have f2: "saves s2 = [(2500, Debounce, 7)]" "timeouts s2 = []" "now s2 = 2500"
    "nextTick s2 = 120000"
    using r1 f0 by (simp_all add: s2_def settle_def after_update_def render_def)
  have "elapse 2500 s2 = s2\<lparr>now := now s2 + 2500\<rparr>"
    by (rule elapse_quiet) (simp_all add: f2)
  then have "debounce_saves (elapse 2500 s2) = [(2500, Debounce, 7)]"
    using f2 by (simp add: debounce_saves_def)
  moreover have "run [Render True 7, Elapse 2500, Settle True, Elapse 2500] m = elapse 2500 s2"
    by (simp add: run_def s2_def s1_def s0_def)
  ultimately show ?thesis unfolding m_def by simp
qed

section \<open>The claims about the autosave hook\<close>

text \<open>
  C8. Both editors pass \<open>{ history, currentIndex }\<close>, a new object in every render. With
  such a caller, mounted at time 0 with the interval of 120000 ms, one change of the
  data at time 0 and nothing else from outside but the saves settling as soon as they
  are made, the debounce timer calls the save path at 2500, at 5000, at 7500 and at
  10000: the status update of each save renders the component, the render hands the
  hook a new object, and the debounce effect arms the next timeout.
\<close>

theorem debounce_rearms_after_save:
  "debounce_saves
     (run [Render True 7, Elapse 2500, Settle True, Elapse 2500, Settle True,
           Elapse 2500, Settle True, Elapse 2500, Settle True]
        (mount True (0::nat) 120000 0)) =
     [(2500, Debounce, 7), (5000, Debounce, 7), (7500, Debounce, 7), (10000, Debounce, 7)]"
proof -
  define m where "m = mount True (0::nat) 120000 0"
  define s0 where "s0 = render True 7 m"
  define s1 where "s1 = settle True (elapse 2500 s0)"
  define s2 where "s2 = settle True (elapse 2500 s1)"
  define s3 where "s3 = settle True (elapse 2500 s2)"
  define s4 where "s4 = settle True (elapse 2500 s3)"
  have im: "hook_inv m" unfolding m_def by (rule hook_inv_mount)
  have fm: "now m = 0" "nextTick m = 120000" "status m = Idle" "saves m = []" "freshData m"
    by (simp_all add: m_def mount_def interval_effect_def debounce_effect_def)
  have i0: "hook_inv s0" unfolding s0_def by (rule hook_inv_render[OF im])
  have f0: "freshData s0" "now s0 = 0" "nextTick s0 = 120000" "status s0 \<noteq> Saving"
    "dataRef s0 = 7" "debounce_saves s0 = []"
    using fm by (simp_all add: s0_def render_keeps debounce_saves_def)
  have t0: "timeouts s0 = [(nextId m, now s0 + 2500)]"
    using render_changed(1)[OF im, of 7] fm(1) f0(2) by (simp add: s0_def)
  note c1 = resave_cycle[OF i0 f0(1) t0, folded s1_def]
  have a1: "now s0 + 2500 < nextTick s0" using f0 by simp
  note r1 = c1[OF a1 f0(4)]
  obtain j1 where t1: "timeouts s1 = [(j1, now s1 + 2500)]" using r1(4,5) by auto
  have a2: "now s1 + 2500 < nextTick s1" using r1(5,6) f0 by simp
  note r2 = resave_cycle[OF r1(2) r1(3) t1 a2 r1(7), folded s2_def]
  obtain j2 where t2: "timeouts s2 = [(j2, now s2 + 2500)]" using r2(4,5) by auto
  have a3: "now s2 + 2500 < nextTick s2" using r2(5,6) r1(5,6) f0 by simp
  note r3 = resave_cycle[OF r2(2) r2(3) t2 a3 r2(7), folded s3_def]
  obtain j3 where t3: "timeouts s3 = [(j3, now s3 + 2500)]" using r3(4,5) by auto
  have a4: "now s3 + 2500 < nextTick s3" using r3(5,6) r2(5,6) r1(5,6) f0 by simp
  note r4 = resave_cycle[OF r3(2) r3(3) t3 a4 r3(7), folded s4_def]
  have "debounce_saves s4 =
     [(2500, Debounce, 7), (5000, Debounce, 7), (7500, Debounce, 7), (10000, Debounce, 7)]"
    using r4(1) r3(1,5,8) r2(1,5,8) r1(1,5,8) f0 by simp
  moreover have "run [Render True 7, Elapse 2500, Settle True, Elapse 2500, Settle True,
           Elapse 2500, Settle True, Elapse 2500, Settle True] m = s4"
    by (simp add: run_def s4_def s3_def s2_def s1_def s0_def)
  ultimately show ?thesis unfolding m_def by simp
qed

text \<open>
  C9. \<open>performSave\<close> has no guard: whatever the number of saves in flight, a call sets
  the status to saving, calls the save callback with the current data and adds one
  save in flight. In any state the hook reaches, when the tick of the interval timer
  falls on the deadline of the debounce timeout, both timers call the save path at
  that time, and two more saves are in flight.
\<close>

theorem performSave_unguarded:
  "inFlight (performSave trg t s) = inFlight s + 1 \<and>
   saves (performSave trg t s) = saves s @ [(t, trg, dataRef s)] \<and>
   status (performSave trg t s) = Saving \<and>
   (let r = run evs (mount fresh data0 interval t0) in
      nextTick r = now r + 2500 \<longrightarrow>
        saves (elapse 2500 (render True data r)) =
          saves r @ [(now r + 2500, Interval, data), (now r + 2500, Debounce, data)] \<and>
        inFlight (elapse 2500 (render True data r)) = inFlight r + 2)"
proof -
  define r where "r = run evs (mount fresh data0 interval t0)"
  define s1 where "s1 = render True data r"
  have inv: "hook_inv r" unfolding r_def by (intro hook_inv_run hook_inv_mount)
  have both: "saves (elapse 2500 s1) =
          saves r @ [(now r + 2500, Interval, data), (now r + 2500, Debounce, data)] \<and>
        inFlight (elapse 2500 s1) = inFlight r + 2"
    if n: "nextTick r = now r + 2500"
  proof -
    have f: "timeouts s1 = [(nextId r, now s1 + 2500)]" "now s1 = now r"
      "nextTick s1 = now r + 2500" "saves s1 = saves r" "inFlight s1 = inFlight r"
      "dataRef s1 = data"
      using render_changed(1)[OF inv, of data] n by (simp_all add: s1_def render_keeps)
    have le: "now s1 + 2500 \<le> nextTick s1" using f by simp
    have e: "elapse 2500 s1 =
        after_update s1 (fire_due (now s1 + 2500) (s1\<lparr>now := now s1 + 2500\<rparr>))"
      by (rule elapse_deadline[OF f(1) le])
    show ?thesis
      unfolding e using f by (simp add: after_update_keeps fire_due_fields)
  qed
  show ?thesis
    using both unfolding Let_def r_def[symmetric] s1_def[symmetric]
    by (simp add: performSave_def)
qed

theorem performSave_unguarded_witness:
  "nextTick (run [Elapse 117500] (mount True (0::nat) 120000 0)) =
     now (run [Elapse 117500] (mount True (0::nat) 120000 0)) + 2500 \<and>
   saves (elapse 2500 (render True 7 (run [Elapse 117500] (mount True (0::nat) 120000 0)))) =
     [(120000, Interval, 7), (120000, Debounce, 7)] \<and>
   inFlight (elapse 2500 (render True 7 (run [Elapse 117500] (mount True (0::nat) 120000 0)))) = 2"
proof -
  define m where "m = mount True (0::nat) 120000 0"
  define r where "r = run [Elapse 117500] m"
  have fm: "now m = 0" "nextTick m = 120000" "timeouts m = []" "saves m = []" "inFlight m = 0"
    by (simp_all add: m_def mount_def interval_effect_def debounce_effect_def)
  have "elapse 117500 m = m\<lparr>now := now m + 117500\<rparr>"
    by (rule elapse_quiet) (simp_all add: fm)
  then have f: "now r = 117500" "nextTick r = 120000" "saves r = []" "inFlight r = 0"
    using fm by (simp_all add: r_def run_def)
  note t = performSave_unguarded[of Debounce 0 m "[Elapse 117500]" True "0::nat" 120000 0 7,
      unfolded Let_def m_def[symmetric] r_def[symmetric]]
  have "saves (elapse 2500 (render True 7 r)) = [(120000, Interval, 7), (120000, Debounce, 7)] \<and>
        inFlight (elapse 2500 (render True 7 r)) = 2"
    using t f by simp
  then show ?thesis using f unfolding r_def m_def by simp
qed

theorem concurrent_saves_counterexample:
  "saves (run [Elapse 117500, Render True 7, Elapse 2500] (mount True (0::nat) 120000 0)) =
     [(120000, Interval, 7), (120000, Debounce, 7)] \<and>
   inFlight (run [Elapse 117500, Render True 7, Elapse 2500] (mount True (0::nat) 120000 0)) = 2"
proof -
  define m where "m = mount True (0::nat) 120000 0"
  define r where "r = elapse 117500 m"
  define s1 where "s1 = render True 7 r"
  have im: "hook_inv m" unfolding m_def by (rule hook_inv_mount)
  have fm: "now m = 0" "nextTick m = 120000" "timeouts m = []" "saves m = []" "inFlight m = 0"
    by (simp_all add: m_def mount_def interval_effect_def debounce_effect_def)
  have q: "r = m\<lparr>now := now m + 117500\<rparr>"
    unfolding r_def by (rule elapse_quiet) (simp_all add: fm)
  have ir: "hook_inv r" unfolding r_def by (rule hook_inv_elapse[OF im])
  have fr: "now r = 117500" "nextTick r = 120000" "saves r = []" "inFlight r = 0"
    using fm by (simp_all add: q)
  have f: "timeouts s1 = [(nextId r, now s1 + 2500)]" "now s1 = 117500"
    "nextTick s1 = 120000" "saves s1 = []" "inFlight s1 = 0" "dataRef s1 = 7"
    using render_changed(1)[OF ir, of 7] fr by (simp_all add: s1_def render_keeps)
  have le: "now s1 + 2500 \<le> nextTick s1" using f by simp
  have e: "elapse 2500 s1 =
      after_update s1 (fire_due (now s1 + 2500) (s1\<lparr>now := now s1 + 2500\<rparr>))"
    by (rule elapse_deadline[OF f(1) le])
  have "saves (elapse 2500 s1) = [(120000, Interval, 7), (120000, Debounce, 7)] \<and>
        inFlight (elapse 2500 s1) = 2"
    unfolding e using f by (simp add: after_update_keeps fire_due_fields)
  moreover have "run [Elapse 117500, Render True 7, Elapse 2500] m = elapse 2500 s1"
    by (simp add: run_def s1_def r_def)
  ultimately show ?thesis unfolding m_def by simp
qed

end
